theory Spec2Isabelle
  imports Main "HOL-Library.Log_Nat"
begin

section \<open>JavaScript numbers\<close>

text \<open>
  The library stores its elements in a \<^verbatim>\<open>Float32Array\<close> and computes with JavaScript
  numbers (IEEE 754 binary64, round to nearest, ties to even). A number is NaN, an
  infinity with its sign, or a finite value given by its sign (\<open>True\<close> is negative) and
  its magnitude, a non-negative rational; \<open>Finite True 0\<close> is the negative zero.
\<close>

datatype jsnum = NaN | Infinity bool | Finite bool rat

text \<open>The exponent of the binade of a positive rational: \<open>2 powi ilog2 q \<le> q < 2 powi (ilog2 q + 1)\<close>.\<close>

definition ilog2 :: "rat \<Rightarrow> int" where
  "ilog2 q = (if 1 \<le> q then bitlen \<lfloor>q\<rfloor> - 1 else - bitlen (\<lceil>1 / q\<rceil> - 1))"

definition round_half_even :: "rat \<Rightarrow> int" where
  "round_half_even q =
     (let f = \<lfloor>q\<rfloor>; d = q - of_int f
      in if d < 1 / 2 then f else if 1 / 2 < d then f + 1 else if even f then f else f + 1)"

text \<open>
  Rounding of the magnitude \<open>\<bar>q\<bar>\<close> to the binary format of precision \<open>p\<close> and
  exponent range \<open>emin .. emax\<close> (subnormals included), to nearest with ties to even:
  \<open>u\<close> is the distance of neighbouring values of the format around the magnitude;
  \<open>None\<close> is overflow.
\<close>

definition round_mag :: "nat \<Rightarrow> int \<Rightarrow> int \<Rightarrow> rat \<Rightarrow> rat option" where
  "round_mag p emin emax q =
     (if q = 0 then Some 0
      else let a = \<bar>q\<bar>;
               e = max (ilog2 a) emin;
               u = 2 powi (e - int p + 1);
               r = of_int (round_half_even (a / u)) * u
           in if 2 powi (emax + 1) \<le> r then None else Some r)"

definition to_double :: "bool \<Rightarrow> rat \<Rightarrow> jsnum" where
  "to_double s q =
     (case round_mag 53 (- 1022) 1023 q of None \<Rightarrow> Infinity s | Some r \<Rightarrow> Finite s r)"

text \<open>The conversion done by a store into a \<^verbatim>\<open>Float32Array\<close>.\<close>

fun fround :: "jsnum \<Rightarrow> jsnum" where
  "fround NaN = NaN"
| "fround (Infinity s) = Infinity s"
| "fround (Finite s q) =
     (case round_mag 24 (- 126) 127 q of None \<Rightarrow> Infinity s | Some r \<Rightarrow> Finite s r)"

definition signed :: "bool \<Rightarrow> rat \<Rightarrow> rat" where
  "signed s q = (if s then - q else q)"

fun js_mul :: "jsnum \<Rightarrow> jsnum \<Rightarrow> jsnum" where
  "js_mul (Finite s q) (Finite t r) = to_double (s \<noteq> t) (q * r)"
| "js_mul (Finite s q) (Infinity t) = (if q = 0 then NaN else Infinity (s \<noteq> t))"
| "js_mul (Infinity s) (Finite t r) = (if r = 0 then NaN else Infinity (s \<noteq> t))"
| "js_mul (Infinity s) (Infinity t) = Infinity (s \<noteq> t)"
| "js_mul NaN _ = NaN"
| "js_mul _ NaN = NaN"

fun js_add :: "jsnum \<Rightarrow> jsnum \<Rightarrow> jsnum" where
  "js_add (Finite s q) (Finite t r) =
     (let x = signed s q + signed t r
      in if x = 0 then Finite (s \<and> t) 0 else to_double (x < 0) \<bar>x\<bar>)"
| "js_add (Finite s q) (Infinity t) = Infinity t"
| "js_add (Infinity s) (Finite t r) = Infinity s"
| "js_add (Infinity s) (Infinity t) = (if s = t then Infinity s else NaN)"
| "js_add NaN _ = NaN"
| "js_add _ NaN = NaN"

fun js_neg :: "jsnum \<Rightarrow> jsnum" where
  "js_neg NaN = NaN"
| "js_neg (Infinity s) = Infinity (\<not> s)"
| "js_neg (Finite s q) = Finite (\<not> s) q"

definition js_sub :: "jsnum \<Rightarrow> jsnum \<Rightarrow> jsnum" where
  "js_sub a b = js_add a (js_neg b)"

fun js_div :: "jsnum \<Rightarrow> jsnum \<Rightarrow> jsnum" where
  "js_div (Finite s q) (Finite t r) =
     (if r = 0 then (if q = 0 then NaN else Infinity (s \<noteq> t)) else to_double (s \<noteq> t) (q / r))"
| "js_div (Finite s q) (Infinity t) = Finite (s \<noteq> t) 0"
| "js_div (Infinity s) (Finite t r) = Infinity (s \<noteq> t)"
| "js_div (Infinity s) (Infinity t) = NaN"
| "js_div NaN _ = NaN"
| "js_div _ NaN = NaN"

text \<open>\<^verbatim>\<open>a === b\<close> on numbers: NaN equals nothing, the two zeros are equal.\<close>

fun js_strict_eq :: "jsnum \<Rightarrow> jsnum \<Rightarrow> bool" where
  "js_strict_eq (Finite s q) (Finite t r) = (q = r \<and> (s = t \<or> q = 0))"
| "js_strict_eq (Infinity s) (Infinity t) = (s = t)"
| "js_strict_eq _ _ = False"

text \<open>\<^verbatim>\<open>Math.pow(-1, i)\<close> at a loop index \<open>i\<close>, a non-negative integer.\<close>

definition pow_neg1 :: "int \<Rightarrow> jsnum" where
  "pow_neg1 i = Finite (odd i) 1"

text \<open>
  An element of a plain array is a number or \<^verbatim>\<open>undefined\<close> (\<open>None\<close>, also a hole);
  arithmetic and the typed array convert \<^verbatim>\<open>undefined\<close> to NaN.
\<close>

definition to_number :: "jsnum option \<Rightarrow> jsnum" where
  "to_number v = (case v of None \<Rightarrow> NaN | Some n \<Rightarrow> n)"

definition js_zero :: jsnum where
  "js_zero = Finite False 0"

definition js_one :: jsnum where
  "js_one = Finite False 1"

section \<open>Arrays\<close>

datatype error = NotEnoughValues | TooManyValues | NotSquare | NoInverse | InvalidArrayLength

text \<open>
  \<^verbatim>\<open>new Array(n)\<close> and \<^verbatim>\<open>new Array(n).fill(v)\<close>: a RangeError unless \<open>n\<close> is an array
  length.
\<close>

definition new_Array :: "int \<Rightarrow> 'a \<Rightarrow> error + 'a list" where
  "new_Array n v =
     (if 0 \<le> n \<and> n < 2 ^ 32 then Inr (replicate (nat n) v) else Inl InvalidArrayLength)"

text \<open>A read outside the array is \<^verbatim>\<open>undefined\<close>.\<close>

definition typed_get :: "jsnum list \<Rightarrow> int \<Rightarrow> jsnum option" where
  "typed_get xs i = (if 0 \<le> i \<and> i < int (length xs) then Some (xs ! nat i) else None)"

definition array_get :: "jsnum option list \<Rightarrow> int \<Rightarrow> jsnum option" where
  "array_get xs i = (if 0 \<le> i \<and> i < int (length xs) then xs ! nat i else None)"

text \<open>
  A write past the end of a plain array extends it with holes; a write at a negative
  index sets a property and leaves the elements alone.
\<close>

definition array_set :: "jsnum option list \<Rightarrow> int \<Rightarrow> jsnum option \<Rightarrow> jsnum option list" where
  "array_set xs i v =
     (if i < 0 then xs
      else if i < int (length xs) then xs[nat i := v]
      else xs @ replicate (nat i - length xs) None @ [v])"

section \<open>The Matrix class\<close>

record matrix =
  ySize :: int
  xSize :: int
  vals :: "jsnum list"

text \<open>The constructor: \<^verbatim>\<open>Float32Array.from(values)\<close>, then the two length checks.\<close>

definition construct :: "int \<Rightarrow> int \<Rightarrow> jsnum option list \<Rightarrow> error + matrix" where
  "construct ys xs vs =
     (let v = map (\<lambda>a. fround (to_number a)) vs
      in if int (length v) < ys * xs then Inl NotEnoughValues
         else if ys * xs < int (length v) then Inl TooManyValues
         else Inr \<lparr>ySize = ys, xSize = xs, vals = v\<rparr>)"

definition identity :: "int \<Rightarrow> error + matrix" where
  "identity sz =
     (case new_Array (sz * sz) (Some js_zero) of
        Inl e \<Rightarrow> Inl e
      | Inr vs \<Rightarrow>
          construct sz sz
            (fold (\<lambda>i vs. array_set vs (i * sz + i) (Some js_one)) [0..sz - 1] vs))"

definition get :: "matrix \<Rightarrow> int \<Rightarrow> int \<Rightarrow> jsnum option" where
  "get m y x = typed_get (vals m) (y * xSize m + x)"

definition map_m :: "matrix \<Rightarrow> (jsnum \<Rightarrow> jsnum) \<Rightarrow> error + matrix" where
  "map_m m fn = construct (ySize m) (xSize m) (map (\<lambda>v. Some (fround (fn v))) (vals m))"

definition eq :: "matrix \<Rightarrow> matrix \<Rightarrow> bool" where
  "eq a b =
     (if xSize a \<noteq> xSize b \<or> ySize a \<noteq> ySize b then False
      else list_all
             (\<lambda>i. case typed_get (vals b) i of
                     None \<Rightarrow> False
                   | Some w \<Rightarrow> js_strict_eq (vals a ! nat i) w)
             [0..int (length (vals a)) - 1])"

definition transpose_m :: "matrix \<Rightarrow> error + matrix" where
  "transpose_m m =
     (case new_Array (xSize m * ySize m) None of
        Inl e \<Rightarrow> Inl e
      | Inr result \<Rightarrow>
          construct (xSize m) (ySize m)
            (fold (\<lambda>y result.
                     fold (\<lambda>x result.
                             array_set result (y + x * ySize m)
                               (typed_get (vals m) (y * xSize m + x)))
                       [0..xSize m - 1] result)
               [0..ySize m - 1] result))"

definition rotate_m :: "matrix \<Rightarrow> error + matrix" where
  "rotate_m m =
     construct (xSize m) (ySize m)
       (fold (\<lambda>x result.
                fold (\<lambda>y result. result @ [typed_get (vals m) (y * xSize m + x)])
                  (rev [0..ySize m - 1]) result)
          [0..xSize m - 1] [])"

text \<open>
  In \<^verbatim>\<open>minor\<close> the index \<open>sourceix\<close> is never negative and \<open>xSize\<close> is positive inside the
  loops, where \<^verbatim>\<open>%\<close> and \<^verbatim>\<open>Math.floor(a / b)\<close> are \<open>mod\<close> and \<open>div\<close>.
\<close>

definition minor :: "matrix \<Rightarrow> int \<Rightarrow> int \<Rightarrow> error + matrix" where
  "minor m y x =
     construct (ySize m - 1) (xSize m - 1)
       (fold (\<lambda>iy values.
                fold (\<lambda>ix values.
                        let sourceix = iy * xSize m + ix
                        in if sourceix mod xSize m \<noteq> x \<and> sourceix div xSize m \<noteq> y
                           then values @ [typed_get (vals m) sourceix]
                           else values)
                  [0..xSize m - 1] values)
          [0..ySize m - 1] [])"

definition minors :: "matrix \<Rightarrow> error + matrix list" where
  "minors m =
     fold (\<lambda>y result.
             fold (\<lambda>x result.
                     case result of
                       Inl e \<Rightarrow> Inl e
                     | Inr ms \<Rightarrow> (case minor m y x of Inl e \<Rightarrow> Inl e | Inr mi \<Rightarrow> Inr (ms @ [mi])))
               [0..xSize m - 1] result)
       [0..ySize m - 1] (Inr [])"

function determinant :: "matrix \<Rightarrow> error + jsnum" where
  "determinant m =
     (if xSize m \<noteq> ySize m then Inl NotSquare
      else if xSize m = 2 \<and> ySize m = 2 then
        Inr (js_sub (js_mul (to_number (get m 0 0)) (to_number (get m 1 1)))
                    (js_mul (to_number (get m 0 1)) (to_number (get m 1 0))))
      else
        fold (\<lambda>x sum.
                case sum of
                  Inl e \<Rightarrow> Inl e
                | Inr s \<Rightarrow>
                    (case minor m 0 x of
                       Inl e \<Rightarrow> Inl e
                     | Inr mi \<Rightarrow>
                         (case determinant mi of
                            Inl e \<Rightarrow> Inl e
                          | Inr d \<Rightarrow>
                              Inr (js_add s
                                     (js_mul (js_mul (to_number (typed_get (vals m) x)) d)
                                        (pow_neg1 x))))))
          [0..xSize m - 1] (Inr js_zero))"
  by pat_completeness auto

termination determinant
proof (relation "measure (\<lambda>m. nat (xSize m))")
  show "wf (measure (\<lambda>m. nat (xSize m)))"
    by simp
next
  fix m :: matrix and x :: int and s :: "error + jsnum" and sa :: jsnum and mi :: matrix
  assume "x \<in> set [0..xSize m - 1]" and "minor m 0 x = Inr mi"
  then have "0 < xSize m" and "xSize mi = xSize m - 1"
    by (auto simp: minor_def construct_def Let_def split: if_splits)
  then show "(mi, m) \<in> measure (\<lambda>m. nat (xSize m))"
    by simp
qed

declare determinant.simps [simp del]

text \<open>The elements of the array returned by \<^verbatim>\<open>minors().map((minor, ix) => ...)\<close>.\<close>

fun map_signed_determinants :: "int \<Rightarrow> matrix list \<Rightarrow> error + jsnum option list" where
  "map_signed_determinants ix [] = Inr []"
| "map_signed_determinants ix (mi # ms) =
     (case determinant mi of
        Inl e \<Rightarrow> Inl e
      | Inr d \<Rightarrow>
          (case map_signed_determinants (ix + 1) ms of
             Inl e \<Rightarrow> Inl e
           | Inr ds \<Rightarrow> Inr (Some (js_mul d (pow_neg1 ix)) # ds)))"

definition adjugate :: "matrix \<Rightarrow> error + matrix" where
  "adjugate m =
     (case transpose_m m of
        Inl e \<Rightarrow> Inl e
      | Inr t \<Rightarrow>
          (case minors t of
             Inl e \<Rightarrow> Inl e
           | Inr ms \<Rightarrow>
               (case map_signed_determinants 0 ms of
                  Inl e \<Rightarrow> Inl e
                | Inr ds \<Rightarrow> construct (ySize m) (xSize m) ds)))"

definition inverse_m :: "matrix \<Rightarrow> error + matrix" where
  "inverse_m m =
     (case determinant m of
        Inl e \<Rightarrow> Inl e
      | Inr d \<Rightarrow>
          if js_strict_eq d js_zero then Inl NoInverse
          else (case adjugate m of
                  Inl e \<Rightarrow> Inl e
                | Inr a \<Rightarrow> map_m a (\<lambda>x. js_div x d)))"

datatype multiplier = Number jsnum | Matrix matrix

definition multiply :: "matrix \<Rightarrow> multiplier \<Rightarrow> error + matrix" where
  "multiply m multiplier =
     (case (case multiplier of
              Number n \<Rightarrow>
                (case identity (xSize m) of
                   Inl e \<Rightarrow> Inl e
                 | Inr i \<Rightarrow> map_m i (\<lambda>x. js_mul x n))
            | Matrix b \<Rightarrow> Inr b) of
        Inl e \<Rightarrow> Inl e
      | Inr b \<Rightarrow>
          (case new_Array (ySize m * xSize b) (Some js_zero) of
             Inl e \<Rightarrow> Inl e
           | Inr result \<Rightarrow>
               construct (ySize m) (xSize b)
                 (fold (\<lambda>y result.
                          fold (\<lambda>x result.
                                  fold (\<lambda>z result.
                                          array_set result (x + y * xSize b)
                                            (Some (js_add (to_number (array_get result (x + y * xSize b)))
                                                     (js_mul (to_number (get m y z))
                                                        (to_number (get b z x))))))
                                    [0..xSize m - 1] result)
                            [0..xSize b - 1] result)
                    [0..ySize m - 1] result)))"

text \<open>The builder \<^verbatim>\<open>Matrix.matrix(y, x)(...args)\<close>, called with numbers.\<close>

definition matrix :: "int \<Rightarrow> int \<Rightarrow> jsnum list \<Rightarrow> error + matrix" where
  "matrix y x args = construct y x (map Some args)"

text \<open>The number written as the integer literal \<open>i\<close>.\<close>

definition js_int :: "int \<Rightarrow> jsnum" where
  "js_int i = Finite (i < 0) (of_int \<bar>i\<bar>)"

section \<open>Well-formed values\<close>

text \<open>
  A value read from a \<^verbatim>\<open>Float32Array\<close> is a fixed point of \<open>fround\<close>; a JavaScript
  number is a fixed point of the rounding to binary64.
\<close>

definition is_float32 :: "jsnum \<Rightarrow> bool" where
  "is_float32 v = (fround v = v)"

definition is_double :: "jsnum \<Rightarrow> bool" where
  "is_double v =
     (case v of Finite s q \<Rightarrow> round_mag 53 (- 1022) 1023 q = Some q | _ \<Rightarrow> True)"

definition is_finite :: "jsnum \<Rightarrow> bool" where
  "is_finite v = (case v of Finite s q \<Rightarrow> True | _ \<Rightarrow> False)"

text \<open>
  The matrices of the data model: as many elements as \<open>ySize * xSize\<close> (what the
  constructor checks), each one a single-precision value, and no negative dimension.
\<close>

definition matrix_ok :: "matrix \<Rightarrow> bool" where
  "matrix_ok m =
     (0 \<le> ySize m \<and> 0 \<le> xSize m \<and> int (length (vals m)) = ySize m * xSize m
      \<and> list_all is_float32 (vals m))"

text \<open>
  The value \<open>v\<close> is the integer \<open>i\<close>, of magnitude at most \<open>k\<close>, held exactly: a finite
  number of magnitude \<open>\<bar>i\<bar>\<close> with the sign of \<open>i\<close> (either sign when \<open>i\<close> is zero).
\<close>

definition int_val :: "jsnum \<Rightarrow> int \<Rightarrow> int \<Rightarrow> bool" where
  "int_val v i k =
     (\<bar>i\<bar> \<le> k \<and> (\<exists>s. v = Finite s (of_int \<bar>i\<bar>) \<and> (i \<noteq> 0 \<longrightarrow> s = (i < 0))))"

section \<open>The operations as the specification words them\<close>

text \<open>
  \<^verbatim>\<open>rotate\<close>: for each source column \<open>x\<close> from 0 to \<open>xSize - 1\<close>, the elements
  \<open>source[y][x]\<close> for the source rows \<open>y\<close> from \<open>ySize - 1\<close> down to 0.
\<close>

definition rotate_spec :: "matrix \<Rightarrow> jsnum list" where
  "rotate_spec m =
     concat (map (\<lambda>x. map (\<lambda>y. vals m ! nat (y * xSize m + x)) (rev [0..ySize m - 1]))
               [0..xSize m - 1])"

text \<open>
  \<^verbatim>\<open>minor\<close>: the submatrix with one row and one column fewer, obtained by deleting the
  row \<open>y\<close> and the column \<open>x\<close>.
\<close>

definition minor_spec :: "matrix \<Rightarrow> int \<Rightarrow> int \<Rightarrow> matrix" where
  "minor_spec m y x =
     \<lparr>ySize = ySize m - 1, xSize = xSize m - 1,
      vals = concat (map (\<lambda>iy. map (\<lambda>ix. vals m ! nat (iy * xSize m + ix))
                                  (filter (\<lambda>ix. ix \<noteq> x) [0..xSize m - 1]))
                      (filter (\<lambda>iy. iy \<noteq> y) [0..ySize m - 1]))\<rparr>"

text \<open>
  \<^verbatim>\<open>determinant\<close>: for a two by two matrix the formula \<open>ad - bc\<close>; otherwise the cofactor
  expansion along the first row, the sum over \<open>x\<close> of
  \<open>element(0, x) * minor(0, x).determinant() * (-1) ^ x\<close>, added up from 0 in the order
  of the columns.
\<close>

function determinant_spec :: "matrix \<Rightarrow> jsnum" where
  "determinant_spec m =
     (if xSize m = 2 then
        js_sub (js_mul (vals m ! 0) (vals m ! 3)) (js_mul (vals m ! 1) (vals m ! 2))
      else
        foldl js_add js_zero
          (map (\<lambda>x. js_mul (js_mul (vals m ! nat x) (determinant_spec (minor_spec m 0 x)))
                       (pow_neg1 x))
             [0..xSize m - 1]))"
  by pat_completeness auto
termination
  by (relation "measure (\<lambda>m. nat (xSize m))") (auto simp: minor_spec_def)

declare determinant_spec.simps [simp del]

text \<open>\<^verbatim>\<open>transpose\<close>: the dimensions swapped, and \<open>result[x][y] = source[y][x]\<close>.\<close>

definition transpose_spec :: "matrix \<Rightarrow> matrix" where
  "transpose_spec m =
     \<lparr>ySize = xSize m, xSize = ySize m,
      vals = concat (map (\<lambda>x. map (\<lambda>y. vals m ! nat (y * xSize m + x)) [0..ySize m - 1])
                      [0..xSize m - 1])\<rparr>"

text \<open>\<^verbatim>\<open>minors\<close>: every \<^verbatim>\<open>minor(y, x)\<close> in row-major order.\<close>

definition minors_spec :: "matrix \<Rightarrow> matrix list" where
  "minors_spec m =
     concat (map (\<lambda>y. map (\<lambda>x. minor_spec m y x) [0..xSize m - 1]) [0..ySize m - 1])"

text \<open>
  \<^verbatim>\<open>adjugate\<close>: the minors of the transposed matrix in row-major order, the determinant
  of each multiplied by \<open>(-1)\<close> raised to its index in that sequence, stored (in single
  precision) as a matrix of the shape of the receiver.
\<close>

definition adjugate_spec :: "matrix \<Rightarrow> matrix" where
  "adjugate_spec m =
     (let ms = minors_spec (transpose_spec m)
      in \<lparr>ySize = ySize m, xSize = xSize m,
          vals = map (\<lambda>ix. fround (js_mul (determinant_spec (ms ! ix)) (pow_neg1 (int ix))))
                   [0..<length ms]\<rparr>)"

text \<open>
  \<^verbatim>\<open>multiply\<close> by a matrix: \<open>ySize\<close> of the receiver by \<open>xSize\<close> of the operand, the
  element at \<open>(y, x)\<close> being the sum over \<open>z\<close> of \<open>this(y, z) * operand(z, x)\<close>, added up
  from 0 in the order of \<open>z\<close> and stored in single precision.
\<close>

definition multiply_spec :: "matrix \<Rightarrow> matrix \<Rightarrow> matrix" where
  "multiply_spec a b =
     \<lparr>ySize = ySize a, xSize = xSize b,
      vals = concat (map (\<lambda>y. map (\<lambda>x. fround (foldl js_add js_zero
                                           (map (\<lambda>z. js_mul (to_number (get a y z))
                                                        (to_number (get b z x)))
                                              [0..xSize a - 1])))
                                 [0..xSize b - 1])
                      [0..ySize a - 1])\<rparr>"

text \<open>\<^verbatim>\<open>identity\<close>: 1 on the main diagonal and 0 elsewhere.\<close>

definition identity_spec :: "int \<Rightarrow> matrix" where
  "identity_spec n =
     \<lparr>ySize = n, xSize = n,
      vals = concat (map (\<lambda>y. map (\<lambda>x. if x = y then js_one else js_zero) [0..n - 1]) [0..n - 1])\<rparr>"

text \<open>A number, with the negative zero replaced by the positive one.\<close>

definition positive_zero :: "jsnum \<Rightarrow> jsnum" where
  "positive_zero v = (if js_strict_eq v js_zero then js_zero else v)"

text \<open>
  \<^verbatim>\<open>multiply\<close> by a number: every element scaled by the number (which the typed array
  of the scaled identity holds in single precision), the dimensions kept.
\<close>

definition scale_spec :: "matrix \<Rightarrow> jsnum \<Rightarrow> matrix" where
  "scale_spec m s =
     \<lparr>ySize = ySize m, xSize = xSize m,
      vals = map (\<lambda>v. fround (js_mul v (fround s))) (vals m)\<rparr>"

text \<open>The identity scaled by a number, \<^verbatim>\<open>Matrix.identity(n).map(x => x * s)\<close>.\<close>

definition scaled_identity :: "int \<Rightarrow> jsnum \<Rightarrow> matrix" where
  "scaled_identity n s =
     \<lparr>ySize = n, xSize = n, vals = map (\<lambda>v. fround (js_mul v s)) (vals (identity_spec n))\<rparr>"

section \<open>Exact arithmetic\<close>

text \<open>
  The value of a finite number, as a rational; \<open>exactly v q\<close> says that the number \<open>v\<close>
  is finite and that its value is \<open>q\<close>.
\<close>

definition value_of :: "jsnum \<Rightarrow> rat" where
  "value_of v = (case v of Finite s q \<Rightarrow> signed s q | _ \<Rightarrow> 0)"

definition exactly :: "jsnum \<Rightarrow> rat \<Rightarrow> bool" where
  "exactly v q = (is_finite v \<and> value_of v = q)"

text \<open>The value of \<^verbatim>\<open>get(y, x)\<close>.\<close>

definition elements :: "matrix \<Rightarrow> nat \<Rightarrow> nat \<Rightarrow> rat" where
  "elements m y x = value_of (vals m ! (y * nat (xSize m) + x))"

text \<open>
  The three steps of \<^verbatim>\<open>inverse\<close> carried out on rationals, without rounding. A matrix
  is the function from the row and the column to the element; \<open>minor_exact\<close> deletes a
  row and a column. \<open>determinant_exact\<close> follows \<^verbatim>\<open>determinant\<close>: the formula for the
  size 2, otherwise the cofactor sum along the first row, which is 0 for the sizes 0
  and 1. \<open>adjugate_exact\<close> follows \<^verbatim>\<open>adjugate\<close>: the determinant of the minor
  \<open>(y, x)\<close> of the transposed matrix, times \<open>(-1)\<close> raised to the index \<open>y * n + x\<close> of
  the minor. \<open>inverse_exact\<close> divides by the determinant.
\<close>

definition minor_exact :: "(nat \<Rightarrow> nat \<Rightarrow> rat) \<Rightarrow> nat \<Rightarrow> nat \<Rightarrow> nat \<Rightarrow> nat \<Rightarrow> rat" where
  "minor_exact A y x = (\<lambda>r c. A (if r < y then r else r + 1) (if c < x then c else c + 1))"

fun determinant_exact :: "nat \<Rightarrow> (nat \<Rightarrow> nat \<Rightarrow> rat) \<Rightarrow> rat" where
  "determinant_exact 0 A = 0"
| "determinant_exact (Suc n) A =
     (if Suc n = 2 then A 0 0 * A 1 1 - A 0 1 * A 1 0
      else (\<Sum>x<Suc n. A 0 x * determinant_exact n (minor_exact A 0 x) * (- 1) ^ x))"

declare determinant_exact.simps(2) [simp del]

definition adjugate_exact :: "nat \<Rightarrow> (nat \<Rightarrow> nat \<Rightarrow> rat) \<Rightarrow> nat \<Rightarrow> nat \<Rightarrow> rat" where
  "adjugate_exact n A y x =
     determinant_exact (n - 1) (minor_exact (\<lambda>r c. A c r) y x) * (- 1) ^ (y * n + x)"

definition inverse_exact :: "nat \<Rightarrow> (nat \<Rightarrow> nat \<Rightarrow> rat) \<Rightarrow> nat \<Rightarrow> nat \<Rightarrow> rat" where
  "inverse_exact n A y x = adjugate_exact n A y x / determinant_exact n A"

text \<open>
  The determinant of linear algebra, by cofactor expansion along the first row down
  to the empty matrix.
\<close>

fun laplace :: "nat \<Rightarrow> (nat \<Rightarrow> nat \<Rightarrow> rat) \<Rightarrow> rat" where
  "laplace 0 A = 1"
| "laplace (Suc n) A = (\<Sum>x<Suc n. (- 1) ^ x * A 0 x * laplace n (minor_exact A 0 x))"

declare laplace.simps(2) [simp del]

section \<open>Rounding\<close>

lemma bitlen_pos: "0 < x \<Longrightarrow> 1 \<le> bitlen x"
  using bitlen_eq_zero_iff [of x] bitlen_nonneg [of x] by linarith

lemma pow2_add: "(2::rat) powi a * 2 powi b = 2 powi (a + b)"
  by (simp add: power_int_add)

lemma power_int_2_less_cancel: "(2::rat) powi a < 2 powi b \<Longrightarrow> a < b"
  by (metis linorder_not_less one_le_numeral power_int_increasing)

lemma ilog2_lower: assumes "0 < q" shows "2 powi ilog2 q \<le> q"
proof (cases "1 \<le> q")
  case True
  then have f: "0 < \<lfloor>q\<rfloor>" by linarith
  have b: "1 \<le> bitlen \<lfloor>q\<rfloor>" using f by (rule bitlen_pos)
  have "(2::int) ^ nat (bitlen \<lfloor>q\<rfloor> - 1) \<le> \<lfloor>q\<rfloor>"
    using bitlen_bounds [OF f] by simp
  then have "(of_int ((2::int) ^ nat (bitlen \<lfloor>q\<rfloor> - 1)) :: rat) \<le> of_int \<lfloor>q\<rfloor>"
    by (simp only: of_int_le_iff)
  also have "\<dots> \<le> q" by simp
  finally have "(2::rat) ^ nat (bitlen \<lfloor>q\<rfloor> - 1) \<le> q" by simp
  then show ?thesis
    using True b by (simp add: ilog2_def power_int_nonneg_exp)
next
  case False
  define c where "c = \<lceil>1 / q\<rceil>"
  have t: "1 < 1 / q" using False assms by simp
  then have c2: "0 < c - 1" unfolding c_def by linarith
  have "c < 2 ^ nat (bitlen (c - 1)) + 1"
    using bitlen_bounds [OF c2] by simp
  then have "c \<le> 2 ^ nat (bitlen (c - 1))" by simp
  then have "(of_int c :: rat) \<le> of_int (2 ^ nat (bitlen (c - 1)))"
    by (simp only: of_int_le_iff)
  then have "(of_int c :: rat) \<le> 2 ^ nat (bitlen (c - 1))" by simp
  moreover have "1 / q \<le> of_int c" unfolding c_def by simp
  ultimately have "1 / q \<le> 2 ^ nat (bitlen (c - 1))" by (rule order_trans [rotated])
  then have "1 / 2 ^ nat (bitlen (c - 1)) \<le> q"
    using assms by (simp add: field_simps)
  then show ?thesis
    using False bitlen_nonneg [of "c - 1"]
    by (simp add: ilog2_def c_def power_int_minus_divide power_int_nonneg_exp)
qed

lemma ilog2_upper: assumes "0 < q" shows "q < 2 powi (ilog2 q + 1)"
proof (cases "1 \<le> q")
  case True
  then have f: "0 < \<lfloor>q\<rfloor>" by linarith
  have b: "1 \<le> bitlen \<lfloor>q\<rfloor>" using f by (rule bitlen_pos)
  have "\<lfloor>q\<rfloor> + 1 \<le> 2 ^ nat (bitlen \<lfloor>q\<rfloor>)"
    using bitlen_bounds [OF f] by simp
  then have "(of_int (\<lfloor>q\<rfloor> + 1) :: rat) \<le> of_int (2 ^ nat (bitlen \<lfloor>q\<rfloor>))"
    by (simp only: of_int_le_iff)
  moreover have "q < of_int (\<lfloor>q\<rfloor> + 1)" by linarith
  ultimately have "q < 2 ^ nat (bitlen \<lfloor>q\<rfloor>)" by simp
  then show ?thesis
    using True b by (simp add: ilog2_def power_int_nonneg_exp)
next
  case False
  define c where "c = \<lceil>1 / q\<rceil>"
  define b where "b = bitlen (c - 1)"
  have t: "1 < 1 / q" using False assms by simp
  then have c2: "0 < c - 1" unfolding c_def by linarith
  have b1: "1 \<le> b" unfolding b_def using c2 by (rule bitlen_pos)
  have "2 ^ nat (b - 1) \<le> c - 1"
    unfolding b_def using bitlen_bounds [OF c2] by simp
  then have "(of_int (2 ^ nat (b - 1)) :: rat) \<le> of_int (c - 1)"
    by (simp only: of_int_le_iff)
  moreover have "of_int (c - 1) < 1 / q" unfolding c_def by linarith
  ultimately have "2 ^ nat (b - 1) < 1 / q" by simp
  then have "q < 1 / 2 ^ nat (b - 1)"
    using assms by (simp add: field_simps)
  moreover have "ilog2 q + 1 = - (b - 1)"
    using False by (simp add: ilog2_def c_def b_def)
  moreover have "(2::rat) powi (- (b - 1)) = 1 / 2 ^ nat (b - 1)"
    using b1 by (simp only: power_int_minus_divide) (simp add: power_int_nonneg_exp)
  ultimately show ?thesis
    by simp
qed

lemma round_half_even_of_int [simp]: "round_half_even (of_int n) = n"
  by (simp add: round_half_even_def)

lemma round_half_even_le: "q \<le> of_int n \<Longrightarrow> round_half_even q \<le> n"
  unfolding round_half_even_def Let_def
  by (auto simp: not_less) linarith+

lemma round_half_even_ge: "of_int n \<le> q \<Longrightarrow> n \<le> round_half_even q"
proof -
  assume "of_int n \<le> q"
  then have "n \<le> \<lfloor>q\<rfloor>" by (simp add: le_floor_iff)
  then show ?thesis
    unfolding round_half_even_def Let_def by simp
qed

text \<open>A value \<open>k * 2 powi j\<close> of the format is its own rounding.\<close>

lemma round_mag_exact:
  assumes k: "0 < k" "k < 2 ^ p"
    and j: "emin - int p + 1 \<le> j"
    and ov: "of_int k * 2 powi j < (2::rat) powi (emax + 1)"
  shows "round_mag p emin emax (of_int k * 2 powi j) = Some (of_int k * 2 powi j)"
proof -
  define q :: rat where "q = of_int k * 2 powi j"
  have q0: "0 < q" using k by (simp add: q_def)
  have "(of_int k :: rat) < of_int (2 ^ p)" using k(2) by (simp only: of_int_less_iff)
  then have "q < 2 ^ p * 2 powi j" by (simp add: q_def)
  also have "\<dots> = 2 powi (int p) * 2 powi j" by simp
  also have "\<dots> = 2 powi (int p + j)" by (simp only: pow2_add)
  finally have "(2::rat) powi ilog2 q < 2 powi (int p + j)"
    using ilog2_lower [OF q0] by simp
  then have "ilog2 q < int p + j" by (rule power_int_2_less_cancel)
  define e where "e = max (ilog2 q) emin"
  define d where "d = j - (e - int p + 1)"
  have d0: "0 \<le> d" using \<open>ilog2 q < int p + j\<close> j by (simp add: d_def e_def)
  have "q / 2 powi (e - int p + 1) = of_int k * 2 powi d"
    by (simp add: q_def d_def power_int_diff)
  also have "\<dots> = of_int (k * 2 ^ nat d)"
    using d0 by (simp add: power_int_nonneg_exp)
  finally have "round_half_even (q / 2 powi (e - int p + 1)) = k * 2 ^ nat d"
    by (simp only: round_half_even_of_int)
  moreover have "of_int (k * 2 ^ nat d) * 2 powi (e - int p + 1) = q"
  proof -
    have "(of_int (k * 2 ^ nat d) :: rat) * 2 powi (e - int p + 1)
        = of_int k * (2 powi d * 2 powi (e - int p + 1))"
      using d0 by (simp add: power_int_nonneg_exp)
    also have "2 powi d * (2::rat) powi (e - int p + 1) = 2 powi j"
      by (simp only: pow2_add) (simp add: d_def)
    finally show ?thesis by (simp add: q_def)
  qed
  moreover have "\<bar>q\<bar> = q" using q0 by simp
  ultimately have "round_mag p emin emax q = Some q"
    using q0 ov by (simp add: round_mag_def Let_def e_def [symmetric] q_def [symmetric])
  then show ?thesis by (simp add: q_def)
qed

text \<open>Every rounding is zero or such a value.\<close>

lemma round_mag_form:
  assumes r: "round_mag p emin emax q = Some r" and p0: "0 < p"
  shows "r = 0 \<or> (\<exists>k j. 0 < k \<and> k < 2 ^ p \<and> emin - int p + 1 \<le> j \<and> r = of_int k * 2 powi j)"
proof (cases "q = 0")
  case True
  with r show ?thesis by (simp add: round_mag_def)
next
  case False
  define a where "a = \<bar>q\<bar>"
  define e where "e = max (ilog2 a) emin"
  define u :: rat where "u = 2 powi (e - int p + 1)"
  define n where "n = round_half_even (a / u)"
  have a0: "0 < a" using False by (simp add: a_def)
  have u0: "0 < u" by (simp add: u_def)
  have rn: "r = of_int n * u"
    using r False
    by (simp add: round_mag_def Let_def a_def [symmetric] e_def [symmetric] u_def [symmetric] n_def
        split: if_splits)
  have "a < 2 powi (ilog2 a + 1)" using a0 by (rule ilog2_upper)
  also have "\<dots> \<le> 2 powi (e + 1)"
    by (rule power_int_increasing) (simp_all add: e_def)
  also have "\<dots> = 2 powi (int p) * u"
    by (simp only: u_def pow2_add) simp
  also have "\<dots> = 2 ^ p * u" by simp
  finally have "a / u < 2 ^ p" using u0 by (simp add: field_simps)
  then have "a / u \<le> of_int (2 ^ p)" by simp
  then have n_le: "n \<le> 2 ^ p" unfolding n_def by (rule round_half_even_le)
  have "of_int 0 \<le> a / u" using a0 u0 by simp
  then have n_ge: "0 \<le> n" unfolding n_def by (rule round_half_even_ge)
  consider "n = 0" | "0 < n" "n < 2 ^ p" | "n = 2 ^ p" using n_le n_ge by linarith
  then show ?thesis
  proof cases
    case 1
    then show ?thesis by (simp add: rn)
  next
    case 2
    have "emin - int p + 1 \<le> e - int p + 1" by (simp add: e_def)
    with 2 rn show ?thesis unfolding u_def by blast
  next
    case 3
    have "r = of_int (2 ^ (p - 1)) * 2 powi (e - int p + 2)"
    proof -
      have ex: "int (p - 1) + (e - int p + 2) = int p + (e - int p + 1)"
        using p0 by simp
      have "r = 2 powi (int p) * 2 powi (e - int p + 1)" by (simp add: rn 3 u_def)
      also have "\<dots> = 2 powi (int (p - 1)) * 2 powi (e - int p + 2)"
        by (simp only: pow2_add ex)
      finally show ?thesis by simp
    qed
    moreover have "(0::int) < 2 ^ (p - 1)" by simp
    moreover have "(2::int) ^ (p - 1) < 2 ^ p" using p0 by simp
    moreover have "emin - int p + 1 \<le> e - int p + 2" by (simp add: e_def)
    ultimately show ?thesis by blast
  qed
qed

lemma round_mag_bound:
  "round_mag p emin emax q = Some r \<Longrightarrow> r < 2 powi (emax + 1)"
  by (auto simp: round_mag_def Let_def split: if_splits)

lemma round_mag_nonneg:
  assumes "round_mag p emin emax q = Some r" shows "0 \<le> r"
proof (cases "q = 0")
  case True
  with assms show ?thesis by (simp add: round_mag_def)
next
  case False
  define u :: rat where "u = 2 powi (max (ilog2 \<bar>q\<bar>) emin - int p + 1)"
  have "of_int 0 \<le> \<bar>q\<bar> / u" by (simp add: u_def)
  then have "0 \<le> round_half_even (\<bar>q\<bar> / u)" by (rule round_half_even_ge)
  moreover have "r = of_int (round_half_even (\<bar>q\<bar> / u)) * u"
    using assms(1) False by (simp add: round_mag_def Let_def u_def split: if_splits)
  ultimately show ?thesis by (simp add: u_def)
qed

lemma round_mag_idem:
  assumes "round_mag p emin emax q = Some r" and "0 < p"
  shows "round_mag p emin emax r = Some r"
  using round_mag_form [OF assms] round_mag_bound [OF assms(1)]
  by (auto simp: round_mag_exact) (simp add: round_mag_def)

lemma round_mag_of_int:
  assumes "0 \<le> n" and "n < 2 ^ p" and "emin \<le> int p - 1" and "int p \<le> emax + 1"
  shows "round_mag p emin emax (of_int n) = Some (of_int n)"
proof (cases "n = 0")
  case True
  then show ?thesis by (simp add: round_mag_def)
next
  case False
  have "(of_int n :: rat) < of_int (2 ^ p)" using assms(2) by (simp only: of_int_less_iff)
  also have "\<dots> = 2 powi int p" by simp
  also have "\<dots> \<le> 2 powi (emax + 1)" by (rule power_int_increasing) (use assms(4) in simp_all)
  finally have "of_int n * 2 powi 0 < (2::rat) powi (emax + 1)" by simp
  from round_mag_exact [of n p emin 0 emax, OF _ assms(2) _ this] False assms(1,3)
  show ?thesis by simp
qed

lemma round_mag_0 [simp]: "round_mag p emin emax 0 = Some 0"
  by (simp add: round_mag_def)

lemma to_double_0 [simp]: "to_double s 0 = Finite s 0"
  by (simp add: to_double_def)

lemma to_double_of_int:
  "0 \<le> n \<Longrightarrow> n < 2 ^ 53 \<Longrightarrow> to_double s (of_int n) = Finite s (of_int n)"
  by (simp add: to_double_def round_mag_of_int)

lemma fround_of_int:
  "0 \<le> n \<Longrightarrow> n < 2 ^ 24 \<Longrightarrow> fround (Finite s (of_int n)) = Finite s (of_int n)"
  by (simp add: round_mag_of_int)

lemma fround_0 [simp]: "fround (Finite s 0) = Finite s 0"
  by simp

lemma fround_idem [simp]: "fround (fround v) = fround v"
proof (cases v)
  case (Finite s q)
  show ?thesis
  proof (cases "round_mag 24 (- 126) 127 q")
    case None
    with Finite show ?thesis by simp
  next
    case (Some r)
    then have "round_mag 24 (- 126) 127 r = Some r" by (rule round_mag_idem) simp
    with Finite Some show ?thesis by simp
  qed
qed simp_all

lemma is_float32_fround [simp]: "is_float32 (fround v)"
  by (simp add: is_float32_def)

lemma round_candidate_le:
  assumes a0: "0 < a"
  shows "of_int (round_half_even (a / 2 powi (max (ilog2 a) emin - int p + 1)))
           * 2 powi (max (ilog2 a) emin - int p + 1) \<le> (2::rat) powi (max (ilog2 a) emin + 1)"
proof -
  define e where "e = max (ilog2 a) emin"
  define u :: rat where "u = 2 powi (e - int p + 1)"
  have u0: "0 < u" by (simp add: u_def)
  have "a < 2 powi (ilog2 a + 1)" using a0 by (rule ilog2_upper)
  also have "\<dots> \<le> 2 powi (e + 1)"
    by (rule power_int_increasing) (simp_all add: e_def)
  also have "\<dots> = 2 powi (int p) * u"
    by (simp only: u_def pow2_add) simp
  finally have "a / u < 2 ^ p" using u0 by (simp add: field_simps)
  then have "a / u \<le> of_int (2 ^ p)" by simp
  then have "round_half_even (a / u) \<le> 2 ^ p" by (rule round_half_even_le)
  then have "(of_int (round_half_even (a / u)) :: rat) \<le> of_int (2 ^ p)"
    by (simp only: of_int_le_iff)
  then have "of_int (round_half_even (a / u)) * u \<le> 2 powi (int p) * u"
    using u0 by simp
  also have "\<dots> = 2 powi (e + 1)"
    by (simp only: u_def pow2_add) simp
  finally show ?thesis by (simp add: e_def u_def)
qed

lemma round_mag_no_overflow:
  assumes q: "\<bar>q\<bar> < 2 powi b" and b: "b \<le> emax" "emin < b"
  shows "\<exists>r. round_mag p emin emax q = Some r \<and> 0 \<le> r \<and> r \<le> 2 powi b"
proof (cases "q = 0")
  case True
  then show ?thesis by simp
next
  case False
  define a where "a = \<bar>q\<bar>"
  define e where "e = max (ilog2 a) emin"
  define r :: rat where "r = of_int (round_half_even (a / 2 powi (e - int p + 1))) * 2 powi (e - int p + 1)"
  have a0: "0 < a" using False by (simp add: a_def)
  have "(2::rat) powi ilog2 a < 2 powi b"
    using ilog2_lower [OF a0] q by (simp add: a_def)
  then have "ilog2 a < b" by (rule power_int_2_less_cancel)
  then have eb: "e + 1 \<le> b" using b by (simp add: e_def)
  have "r \<le> 2 powi (e + 1)"
    unfolding r_def e_def using a0 by (rule round_candidate_le)
  also have "\<dots> \<le> 2 powi b"
    by (rule power_int_increasing) (use eb in simp_all)
  finally have rb: "r \<le> 2 powi b" .
  also have "\<dots> < 2 powi (emax + 1)"
    by (rule power_int_strict_increasing) (use b in simp_all)
  finally have "\<not> 2 powi (emax + 1) \<le> r" by simp
  then have "round_mag p emin emax q = Some r"
    using False by (simp add: round_mag_def Let_def a_def [symmetric] e_def [symmetric] r_def)
  with rb round_mag_nonneg [of p emin emax q r] show ?thesis by simp
qed

lemma float32_bound:
  assumes "is_float32 (Finite s q)" shows "0 \<le> q \<and> q < 2 powi 128"
proof -
  from assms have "round_mag 24 (- 126) 127 q = Some q"
    by (auto simp: is_float32_def split: option.splits)
  from round_mag_nonneg [OF this] round_mag_bound [OF this] show ?thesis by simp
qed

lemma js_mul_float32:
  assumes "is_float32 (Finite s q)" and "is_float32 (Finite t r)"
  shows "\<exists>x. js_mul (Finite s q) (Finite t r) = Finite (s \<noteq> t) x \<and> 0 \<le> x \<and> x \<le> 2 powi 256"
proof -
  from float32_bound [OF assms(1)] float32_bound [OF assms(2)]
  have "0 \<le> q" "q < 2 powi 128" "0 \<le> r" "r < 2 powi 128" by simp_all
  then have "q * r < 2 powi 128 * 2 powi 128"
    by (intro mult_strict_mono') simp_all
  also have "\<dots> = 2 powi 256" by (simp only: pow2_add) simp
  finally have "\<bar>q * r\<bar> < 2 powi 256" using \<open>0 \<le> q\<close> \<open>0 \<le> r\<close> by simp
  from round_mag_no_overflow [OF this, of 1023 "- 1022" 53]
  show ?thesis by (auto simp: to_double_def)
qed

lemma js_add_bounded:
  assumes "0 \<le> x" "x \<le> 2 powi 256" "0 \<le> y" "y \<le> 2 powi 256"
  shows "is_finite (js_add (Finite s x) (Finite t y))"
proof -
  have "\<bar>signed s x + signed t y\<bar> \<le> x + y"
    using assms by (auto simp: signed_def)
  also have "\<dots> \<le> 2 powi 256 + 2 powi 256" using assms by simp
  also have "\<dots> = 2 powi 1 * 2 powi 256" by simp
  also have "\<dots> = 2 powi 257" by (simp only: pow2_add) simp
  also have "\<dots> < (2::rat) powi 258" by (rule power_int_strict_increasing) simp_all
  finally have "\<bar>\<bar>signed s x + signed t y\<bar>\<bar> < 2 powi 258" by simp
  from round_mag_no_overflow [OF this, of 1023 "- 1022" 53]
  show ?thesis by (auto simp: to_double_def is_finite_def Let_def)
qed

lemma determinant_2x2_finite:
  assumes "is_float32 a" "is_float32 b" "is_float32 c" "is_float32 d"
    and "is_finite a" "is_finite b" "is_finite c" "is_finite d"
  shows "is_finite (js_sub (js_mul a d) (js_mul b c))"
proof -
  from assms(5-8) obtain sa qa sb qb sc qc sd qd where
    v: "a = Finite sa qa" "b = Finite sb qb" "c = Finite sc qc" "d = Finite sd qd"
    by (auto simp: is_finite_def split: jsnum.splits)
  from js_mul_float32 [of sa qa sd qd] assms(1,4) v obtain x where
    x: "js_mul a d = Finite (sa \<noteq> sd) x" "0 \<le> x" "x \<le> 2 powi 256" by auto
  from js_mul_float32 [of sb qb sc qc] assms(2,3) v obtain y where
    y: "js_mul b c = Finite (sb \<noteq> sc) y" "0 \<le> y" "y \<le> 2 powi 256" by auto
  show ?thesis
    using js_add_bounded [OF x(2,3) y(2,3)] by (simp add: js_sub_def x(1) y(1))
qed

lemma ilog2_eqI:
  assumes "0 < q" and "2 powi e \<le> q" and "q < 2 powi (e + 1)"
  shows "ilog2 q = e"
proof -
  have "(2::rat) powi ilog2 q < 2 powi (e + 1)"
    using ilog2_lower [OF assms(1)] assms(3) by (rule le_less_trans)
  then have a: "ilog2 q < e + 1" by (rule power_int_2_less_cancel)
  have "(2::rat) powi e < 2 powi (ilog2 q + 1)"
    using assms(2) ilog2_upper [OF assms(1)] by (rule le_less_trans)
  then have "e < ilog2 q + 1" by (rule power_int_2_less_cancel)
  with a show ?thesis by simp
qed

lemma round_half_even_eval:
  assumes "of_int n - 1 / 2 < q" and "q < of_int n + 1 / 2"
  shows "round_half_even q = n"
proof -
  have "\<lfloor>q\<rfloor> = n \<or> \<lfloor>q\<rfloor> = n - 1"
  proof -
    have "of_int (n - 1) \<le> q" using assms(1) by simp
    then have "n - 1 \<le> \<lfloor>q\<rfloor>" by (simp only: le_floor_iff)
    moreover have "q < of_int (n + 1)" using assms(2) by simp
    then have "\<lfloor>q\<rfloor> < n + 1" by (simp only: floor_less_iff)
    ultimately show ?thesis by linarith
  qed
  then show ?thesis
  proof
    assume f: "\<lfloor>q\<rfloor> = n"
    then have "q - of_int \<lfloor>q\<rfloor> < 1 / 2" using assms(2) by simp
    then show ?thesis by (simp add: round_half_even_def Let_def f)
  next
    assume f: "\<lfloor>q\<rfloor> = n - 1"
    then have "1 / 2 < q - of_int \<lfloor>q\<rfloor>" using assms(1) by simp
    then show ?thesis by (simp add: round_half_even_def Let_def f)
  qed
qed

lemma round_mag_eval:
  assumes q: "0 < q" and lo: "2 powi e \<le> q" and hi: "q < 2 powi (e + 1)" and e: "emin \<le> e"
    and n1: "(of_int n - 1 / 2) * 2 powi (e - int p + 1) < q"
    and n2: "q < (of_int n + 1 / 2) * 2 powi (e - int p + 1)"
    and ov: "of_int n * 2 powi (e - int p + 1) < (2::rat) powi (emax + 1)"
  shows "round_mag p emin emax q = Some (of_int n * 2 powi (e - int p + 1))"
proof -
  define u :: rat where "u = 2 powi (e - int p + 1)"
  have u: "0 < u" by (simp add: u_def)
  have il: "max (ilog2 q) emin = e"
    using ilog2_eqI [OF q lo hi] q e by simp
  have "of_int n - 1 / 2 < q / u" using n1 u by (simp add: u_def pos_less_divide_eq)
  moreover have "q / u < of_int n + 1 / 2" using n2 u by (simp add: u_def pos_divide_less_eq)
  ultimately have r: "round_half_even (q / u) = n" by (rule round_half_even_eval)
  have a: "\<bar>q\<bar> = q" using q by simp
  show ?thesis
    unfolding round_mag_def Let_def a il using q ov r by (simp add: u_def)
qed

section \<open>Evaluation on literals\<close>

lemma round_single_numeral:
  "(numeral k :: int) < 2 ^ 24 \<Longrightarrow> round_mag 24 (- 126) 127 (numeral k) = Some (numeral k)"
  using round_mag_of_int [of "numeral k" 24 "- 126" 127] by simp

lemma round_single_1: "round_mag 24 (- 126) 127 1 = Some 1"
  using round_mag_of_int [of 1 24 "- 126" 127] by simp

lemma round_double_numeral:
  "(numeral k :: int) < 2 ^ 53 \<Longrightarrow> round_mag 53 (- 1022) 1023 (numeral k) = Some (numeral k)"
  using round_mag_of_int [of "numeral k" 53 "- 1022" 1023] by simp

lemma round_double_1: "round_mag 53 (- 1022) 1023 1 = Some 1"
  using round_mag_of_int [of 1 53 "- 1022" 1023] by simp

lemmas num_eval = round_single_numeral round_single_1 round_double_numeral round_double_1
  to_double_def signed_def js_sub_def pow_neg1_def to_number_def js_zero_def js_one_def js_int_def

lemma replicate_numeral: "replicate (numeral k) v = v # replicate (pred_numeral k) v"
  by (simp add: numeral_eq_Suc)

lemmas array_eval = new_Array_def array_set_def array_get_def get_def typed_get_def construct_def
  upto_rec1 replicate_numeral Let_def

lemma determinant_2:
  "xSize m = 2 \<Longrightarrow> ySize m = 2 \<Longrightarrow>
   determinant m =
     Inr (js_sub (js_mul (to_number (get m 0 0)) (to_number (get m 1 1)))
                 (js_mul (to_number (get m 0 1)) (to_number (get m 1 0))))"
  by (subst determinant.simps) simp

lemma determinant_n:
  "xSize m = ySize m \<Longrightarrow> xSize m \<noteq> 2 \<Longrightarrow>
   determinant m =
     fold (\<lambda>x sum.
             case sum of
               Inl e \<Rightarrow> Inl e
             | Inr s \<Rightarrow>
                 (case minor m 0 x of
                    Inl e \<Rightarrow> Inl e
                  | Inr mi \<Rightarrow>
                      (case determinant mi of
                         Inl e \<Rightarrow> Inl e
                       | Inr d \<Rightarrow>
                           Inr (js_add s
                                  (js_mul (js_mul (to_number (typed_get (vals m) x)) d)
                                     (pow_neg1 x))))))
       [0..xSize m - 1] (Inr js_zero)"
  by (subst determinant.simps) simp

lemmas matrix_eval = multiply_def adjugate_def inverse_m_def transpose_m_def minors_def minor_def
  map_m_def identity_def matrix_def determinant_2 determinant_n

section \<open>Matrices with one element or none\<close>

lemma minor_1x1:
  "ySize m = 1 \<Longrightarrow> xSize m = 1 \<Longrightarrow>
   minor m y x =
     (if x \<noteq> 0 \<and> y \<noteq> 0 then Inl TooManyValues else Inr \<lparr>ySize = 0, xSize = 0, vals = []\<rparr>)"
  by (simp add: minor_def construct_def Let_def)

lemma minor_0x0: "ySize m = 0 \<Longrightarrow> xSize m = 0 \<Longrightarrow> minor m y x = Inl NotEnoughValues"
  by (simp add: minor_def construct_def Let_def)

lemma determinant_0x0: "ySize m = 0 \<Longrightarrow> xSize m = 0 \<Longrightarrow> determinant m = Inr js_zero"
  by (simp add: determinant_n)

lemma determinant_1x1:
  "ySize m = 1 \<Longrightarrow> xSize m = 1 \<Longrightarrow> vals m = [v] \<Longrightarrow>
   determinant m = Inr (js_add js_zero (js_mul (js_mul v js_zero) js_one))"
  by (simp add: determinant_n minor_1x1 determinant_0x0 typed_get_def to_number_def pow_neg1_def js_one_def)

lemma cofactor_zero_finite:
  "is_finite v \<Longrightarrow> js_add js_zero (js_mul (js_mul v js_zero) js_one) = js_zero"
  by (cases v) (simp_all add: is_finite_def js_zero_def js_one_def signed_def)

lemma cofactor_zero_not_finite:
  "\<not> is_finite v \<Longrightarrow> js_add js_zero (js_mul (js_mul v js_zero) js_one) = NaN"
  by (cases v) (simp_all add: is_finite_def js_zero_def js_one_def signed_def)

lemma transpose_1x1:
  "ySize m = 1 \<Longrightarrow> xSize m = 1 \<Longrightarrow> vals m = [v] \<Longrightarrow>
   transpose_m m = Inr \<lparr>ySize = 1, xSize = 1, vals = [fround v]\<rparr>"
  by (simp add: transpose_m_def new_Array_def array_set_def typed_get_def construct_def to_number_def)

lemma adjugate_1x1:
  "ySize m = 1 \<Longrightarrow> xSize m = 1 \<Longrightarrow> vals m = [v] \<Longrightarrow>
   adjugate m = Inr \<lparr>ySize = 1, xSize = 1, vals = [js_zero]\<rparr>"
  by (simp add: adjugate_def transpose_1x1 minors_def minor_1x1 determinant_0x0 construct_def
      to_number_def pow_neg1_def js_zero_def)

lemma inverse_1x1:
  assumes "ySize m = 1" "xSize m = 1" "vals m = [v]"
  shows "inverse_m m = (if is_finite v then Inl NoInverse
                        else Inr \<lparr>ySize = 1, xSize = 1, vals = [NaN]\<rparr>)"
proof (cases "is_finite v")
  case True
  with assms show ?thesis
    by (simp add: inverse_m_def determinant_1x1 cofactor_zero_finite) (simp add: js_zero_def)
next
  case False
  with assms show ?thesis
    by (simp add: inverse_m_def determinant_1x1 adjugate_1x1 cofactor_zero_not_finite
        map_m_def construct_def to_number_def) (simp add: js_zero_def)
qed

section \<open>Errors of the determinant\<close>

text \<open>
  Claim C8. The determinant of a matrix whose \<open>xSize\<close> and \<open>ySize\<close> differ is the error
  thrown by the first statement of \<^verbatim>\<open>determinant()\<close>, "is not square and has no
  determinant": no value is returned.
\<close>

theorem determinant_not_square:
  "xSize m \<noteq> ySize m \<Longrightarrow> determinant m = Inl NotSquare"
  by (subst determinant.simps) simp

theorem determinant_not_square_witness:
  "xSize \<lparr>ySize = 3, xSize = 2, vals = map js_int [1, 2, 3, 4, 5, 6]\<rparr>
     \<noteq> ySize \<lparr>ySize = 3, xSize = 2, vals = map js_int [1, 2, 3, 4, 5, 6]\<rparr>
   \<and> determinant \<lparr>ySize = 3, xSize = 2, vals = map js_int [1, 2, 3, 4, 5, 6]\<rparr> = Inl NotSquare"
  using determinant_not_square [of "\<lparr>ySize = 3, xSize = 2, vals = map js_int [1, 2, 3, 4, 5, 6]\<rparr>"]
  by simp

section \<open>The minor of a one by one matrix\<close>

text \<open>
  Claim C3 says that \<^verbatim>\<open>minor\<close> fails on a matrix of size one by one or smaller, so that
  no matrix has a dimension below one. The constructor only compares the number of values
  with \<open>ySize * xSize\<close>: called by \<^verbatim>\<open>minor\<close> on a one by one matrix with no value
  it returns the matrix of size zero by zero.
\<close>

theorem minor_1x1_counterexample:
  "matrix 1 1 [js_int 5] = Inr \<lparr>ySize = 1, xSize = 1, vals = [js_int 5]\<rparr>
   \<and> minor \<lparr>ySize = 1, xSize = 1, vals = [js_int 5]\<rparr> 0 0
       = Inr \<lparr>ySize = 0, xSize = 0, vals = []\<rparr>"
  by (simp add: minor_1x1 matrix_def construct_def num_eval)

text \<open>
  Claim C3, amended. On a one by one matrix \<^verbatim>\<open>minor(y, x)\<close> returns the matrix of size
  zero by zero with no element, unless both \<open>y\<close> and \<open>x\<close> differ from 0, where the only
  element is kept and the constructor fails with "too many values". On the matrix of size
  zero by zero \<^verbatim>\<open>minor\<close> fails with "not enough values". Matrices with \<open>ySize = 0\<close>
  and \<open>xSize = 0\<close> are therefore produced.
\<close>

theorem minor_degenerate:
  "(ySize m = 1 \<and> xSize m = 1 \<longrightarrow>
      minor m y x =
        (if x \<noteq> 0 \<and> y \<noteq> 0 then Inl TooManyValues
         else Inr \<lparr>ySize = 0, xSize = 0, vals = []\<rparr>))
   \<and> (ySize m = 0 \<and> xSize m = 0 \<longrightarrow> minor m y x = Inl NotEnoughValues)"
  by (simp add: minor_1x1 minor_0x0)

theorem minor_degenerate_witness:
  "ySize \<lparr>ySize = 1, xSize = 1, vals = [js_int 5]\<rparr> = 1
   \<and> xSize \<lparr>ySize = 1, xSize = 1, vals = [js_int 5]\<rparr> = 1
   \<and> minor \<lparr>ySize = 1, xSize = 1, vals = [js_int 5]\<rparr> 0 0
       = Inr \<lparr>ySize = 0, xSize = 0, vals = []\<rparr>
   \<and> minor \<lparr>ySize = 1, xSize = 1, vals = [js_int 5]\<rparr> 1 1 = Inl TooManyValues
   \<and> ySize \<lparr>ySize = 0, xSize = 0, vals = []\<rparr> = 0
   \<and> xSize \<lparr>ySize = 0, xSize = 0, vals = []\<rparr> = 0
   \<and> minor \<lparr>ySize = 0, xSize = 0, vals = []\<rparr> 0 0 = Inl NotEnoughValues"
  using minor_degenerate [of "\<lparr>ySize = 1, xSize = 1, vals = [js_int 5]\<rparr>" 0 0]
    minor_degenerate [of "\<lparr>ySize = 1, xSize = 1, vals = [js_int 5]\<rparr>" 1 1]
    minor_degenerate [of "\<lparr>ySize = 0, xSize = 0, vals = []\<rparr>" 0 0]
  by simp

section \<open>The determinant of a one by one matrix\<close>

text \<open>
  Claim C5 says that the determinant of a one by one matrix is 0 whatever its element,
  so that \<^verbatim>\<open>inverse\<close> always fails. The determinant is \<open>0 + v * 0 * 1\<close>, where 0 is
  the determinant of the empty minor: for the element \<^verbatim>\<open>Infinity\<close> (and for NaN) the
  product is NaN, which is not \<^verbatim>\<open>=== 0\<close>, and \<^verbatim>\<open>inverse\<close> returns a matrix.
\<close>

theorem determinant_1x1_counterexample:
  "matrix 1 1 [Infinity False] = Inr \<lparr>ySize = 1, xSize = 1, vals = [Infinity False]\<rparr>
   \<and> determinant \<lparr>ySize = 1, xSize = 1, vals = [Infinity False]\<rparr> = Inr NaN
   \<and> inverse_m \<lparr>ySize = 1, xSize = 1, vals = [Infinity False]\<rparr>
       = Inr \<lparr>ySize = 1, xSize = 1, vals = [NaN]\<rparr>"
  by (simp add: determinant_1x1 inverse_1x1 cofactor_zero_not_finite is_finite_def
      matrix_def construct_def to_number_def)

text \<open>
  Claim C5, amended. For every one by one matrix whose element is finite (neither NaN
  nor an infinity) the determinant is 0 and \<^verbatim>\<open>inverse\<close> fails with "has no inverse
  matrix", also when the element is not zero. When the element is NaN or an infinity the
  determinant is NaN and \<^verbatim>\<open>inverse\<close> returns the one by one matrix holding NaN.
\<close>

theorem determinant_1x1_zero:
  assumes "ySize m = 1" and "xSize m = 1" and "vals m = [v]"
  shows "(is_finite v \<longrightarrow> determinant m = Inr js_zero \<and> inverse_m m = Inl NoInverse)
       \<and> (\<not> is_finite v \<longrightarrow>
            determinant m = Inr NaN
          \<and> inverse_m m = Inr \<lparr>ySize = 1, xSize = 1, vals = [NaN]\<rparr>)"
  using assms
  by (simp add: determinant_1x1 inverse_1x1 cofactor_zero_finite cofactor_zero_not_finite)

theorem determinant_1x1_zero_witness:
  "ySize \<lparr>ySize = 1, xSize = 1, vals = [js_int 5]\<rparr> = 1
   \<and> xSize \<lparr>ySize = 1, xSize = 1, vals = [js_int 5]\<rparr> = 1
   \<and> vals \<lparr>ySize = 1, xSize = 1, vals = [js_int 5]\<rparr> = [js_int 5]
   \<and> is_finite (js_int 5)
   \<and> determinant \<lparr>ySize = 1, xSize = 1, vals = [js_int 5]\<rparr> = Inr js_zero
   \<and> inverse_m \<lparr>ySize = 1, xSize = 1, vals = [js_int 5]\<rparr> = Inl NoInverse
   \<and> \<not> is_finite (Infinity False)
   \<and> determinant \<lparr>ySize = 1, xSize = 1, vals = [Infinity False]\<rparr> = Inr NaN
   \<and> inverse_m \<lparr>ySize = 1, xSize = 1, vals = [Infinity False]\<rparr>
       = Inr \<lparr>ySize = 1, xSize = 1, vals = [NaN]\<rparr>"
  using determinant_1x1_zero [of "\<lparr>ySize = 1, xSize = 1, vals = [js_int 5]\<rparr>" "js_int 5"]
    determinant_1x1_zero [of "\<lparr>ySize = 1, xSize = 1, vals = [Infinity False]\<rparr>" "Infinity False"]
  by (simp add: is_finite_def js_int_def)

section \<open>Matrices of size two by two\<close>

lemma transpose_2x2:
  "ySize m = 2 \<Longrightarrow> xSize m = 2 \<Longrightarrow> vals m = [a, b, c, d] \<Longrightarrow>
   transpose_m m = Inr \<lparr>ySize = 2, xSize = 2, vals = [fround a, fround c, fround b, fround d]\<rparr>"
  by (simp add: transpose_m_def new_Array_def array_set_def typed_get_def construct_def
      to_number_def upto_rec1 numeral_eq_Suc)

lemma minors_2x2:
  "ySize m = 2 \<Longrightarrow> xSize m = 2 \<Longrightarrow> vals m = [a, b, c, d] \<Longrightarrow>
   minors m = Inr [\<lparr>ySize = 1, xSize = 1, vals = [fround d]\<rparr>,
                   \<lparr>ySize = 1, xSize = 1, vals = [fround c]\<rparr>,
                   \<lparr>ySize = 1, xSize = 1, vals = [fround b]\<rparr>,
                   \<lparr>ySize = 1, xSize = 1, vals = [fround a]\<rparr>]"
  by (simp add: minors_def minor_def typed_get_def construct_def
      to_number_def upto_rec1 Let_def)

lemma is_float32_D: "is_float32 v \<Longrightarrow> fround v = v"
  by (simp add: is_float32_def)

lemma js_mul_zero_pow: "js_mul js_zero (pow_neg1 i) = Finite (odd i) 0"
  by (simp add: js_zero_def pow_neg1_def)

lemma adjugate_2x2:
  assumes "ySize m = 2" "xSize m = 2" "vals m = [a, b, c, d]"
    and "is_float32 a" "is_float32 b" "is_float32 c" "is_float32 d"
    and "is_finite a" "is_finite b" "is_finite c" "is_finite d"
  shows "adjugate m = Inr \<lparr>ySize = 2, xSize = 2,
           vals = [Finite False 0, Finite True 0, Finite False 0, Finite True 0]\<rparr>"
  using assms
  by (simp add: adjugate_def transpose_2x2 minors_2x2 is_float32_D determinant_1x1
      cofactor_zero_finite js_mul_zero_pow construct_def to_number_def)

lemma js_div_zero_finite:
  "q \<noteq> 0 \<Longrightarrow> fround (js_div (Finite t 0) (Finite s q)) = Finite (t \<noteq> s) 0"
  by simp

lemma inverse_2x2:
  assumes "ySize m = 2" "xSize m = 2" "vals m = [a, b, c, d]"
    and "is_float32 a" "is_float32 b" "is_float32 c" "is_float32 d"
    and "is_finite a" "is_finite b" "is_finite c" "is_finite d"
  shows "\<exists>s q. determinant m = Inr (Finite s q)
           \<and> inverse_m m =
               (if q = 0 then Inl NoInverse
                else Inr \<lparr>ySize = 2, xSize = 2,
                          vals = [Finite s 0, Finite (\<not> s) 0, Finite s 0, Finite (\<not> s) 0]\<rparr>)"
proof -
  have det: "determinant m = Inr (js_sub (js_mul a d) (js_mul b c))"
    using assms(1-3) by (simp add: determinant_2 get_def typed_get_def to_number_def)
  from determinant_2x2_finite [OF assms(4-11)] obtain s q where
    sq: "js_sub (js_mul a d) (js_mul b c) = Finite s q"
    by (auto simp: is_finite_def split: jsnum.splits)
  have "inverse_m m =
               (if q = 0 then Inl NoInverse
                else Inr \<lparr>ySize = 2, xSize = 2,
                          vals = [Finite s 0, Finite (\<not> s) 0, Finite s 0, Finite (\<not> s) 0]\<rparr>)"
    using adjugate_2x2 [OF assms]
    by (simp add: inverse_m_def det sq js_zero_def map_m_def construct_def to_number_def)
  with det sq show ?thesis by simp
qed

text \<open>
  Claim C4 says that the adjugate of every two by two matrix is the zero matrix. Each
  entry is \<open>(0 + v * 0 * 1) * (-1) ^ ix\<close> for an element \<open>v\<close> of the matrix: for the element
  \<^verbatim>\<open>Infinity\<close> that entry is NaN.
\<close>

theorem adjugate_2x2_counterexample:
  "matrix 2 2 [Infinity False, js_int 1, js_int 1, js_int 1]
     = Inr \<lparr>ySize = 2, xSize = 2, vals = [Infinity False, js_int 1, js_int 1, js_int 1]\<rparr>
   \<and> adjugate \<lparr>ySize = 2, xSize = 2, vals = [Infinity False, js_int 1, js_int 1, js_int 1]\<rparr>
       = Inr \<lparr>ySize = 2, xSize = 2, vals = [Finite False 0, Finite True 0, Finite False 0, NaN]\<rparr>"
  by (simp add: adjugate_def transpose_2x2 minors_2x2 determinant_1x1 matrix_def construct_def
      num_eval)

text \<open>
  Claim C4, amended. For every two by two matrix whose elements are finite the adjugate
  is the two by two matrix of the zeros \<open>0, -0, 0, -0\<close>; the determinant of such a
  matrix is a finite number, and when it is not zero \<^verbatim>\<open>inverse\<close> returns the matrix of
  the zeros \<open>0 / d, -0 / d, 0 / d, -0 / d\<close>, whose signs follow the sign of the
  determinant (as in the comment of \<^verbatim>\<open>inverse\<close> in the source).
\<close>

theorem adjugate_2x2_zero:
  assumes "matrix_ok m" and "ySize m = 2" and "xSize m = 2" and "list_all is_finite (vals m)"
  shows "adjugate m = Inr \<lparr>ySize = 2, xSize = 2,
           vals = [Finite False 0, Finite True 0, Finite False 0, Finite True 0]\<rparr>
       \<and> (\<exists>s q. determinant m = Inr (Finite s q)
           \<and> inverse_m m =
               (if q = 0 then Inl NoInverse
                else Inr \<lparr>ySize = 2, xSize = 2,
                          vals = [Finite s 0, Finite (\<not> s) 0, Finite s 0, Finite (\<not> s) 0]\<rparr>))"
proof -
  from assms(1-3) have "length (vals m) = 4" by (simp add: matrix_ok_def)
  then obtain a b c d where v: "vals m = [a, b, c, d]"
    by (auto simp: length_Suc_conv numeral_eq_Suc)
  from assms(1,4) v have
    "is_float32 a" "is_float32 b" "is_float32 c" "is_float32 d"
    "is_finite a" "is_finite b" "is_finite c" "is_finite d"
    by (simp_all add: matrix_ok_def)
  from adjugate_2x2 [OF assms(2,3) v this] inverse_2x2 [OF assms(2,3) v this]
  show ?thesis by simp
qed

theorem adjugate_2x2_zero_witness:
  "matrix_ok \<lparr>ySize = 2, xSize = 2, vals = map js_int [1, 2, 3, 4]\<rparr>
   \<and> ySize \<lparr>ySize = 2, xSize = 2, vals = map js_int [1, 2, 3, 4]\<rparr> = 2
   \<and> xSize \<lparr>ySize = 2, xSize = 2, vals = map js_int [1, 2, 3, 4]\<rparr> = 2
   \<and> list_all is_finite (vals \<lparr>ySize = 2, xSize = 2, vals = map js_int [1, 2, 3, 4]\<rparr>)
   \<and> adjugate \<lparr>ySize = 2, xSize = 2, vals = map js_int [1, 2, 3, 4]\<rparr>
       = Inr \<lparr>ySize = 2, xSize = 2,
               vals = [Finite False 0, Finite True 0, Finite False 0, Finite True 0]\<rparr>
   \<and> determinant \<lparr>ySize = 2, xSize = 2, vals = map js_int [1, 2, 3, 4]\<rparr> = Inr (Finite True 2)
   \<and> inverse_m \<lparr>ySize = 2, xSize = 2, vals = map js_int [1, 2, 3, 4]\<rparr>
       = Inr \<lparr>ySize = 2, xSize = 2,
               vals = [Finite True 0, Finite False 0, Finite True 0, Finite False 0]\<rparr>"
proof -
  have ok: "matrix_ok \<lparr>ySize = 2, xSize = 2, vals = map js_int [1, 2, 3, 4]\<rparr>"
    by (simp add: matrix_ok_def is_float32_def num_eval)
  have fin: "list_all is_finite (vals \<lparr>ySize = 2, xSize = 2, vals = map js_int [1, 2, 3, 4]\<rparr>)"
    by (simp add: is_finite_def js_int_def)
  have det: "determinant \<lparr>ySize = 2, xSize = 2, vals = map js_int [1, 2, 3, 4]\<rparr>
      = Inr (Finite True 2)"
    by (simp add: determinant_2 get_def typed_get_def num_eval)
  from adjugate_2x2_zero [OF ok _ _ fin] ok fin det show ?thesis
    by auto
qed

section \<open>Multiplication by a matrix\<close>

lemma length_array_set_in_range:
  "0 \<le> i \<Longrightarrow> i < int (length xs) \<Longrightarrow> length (array_set xs i v) = length xs"
  by (simp add: array_set_def)

lemma product_index_in_range:
  assumes "0 \<le> y" "y < ya" "0 \<le> x" "x < xb"
  shows "0 \<le> x + y * xb" and "x + y * xb < ya * (xb::int)"
proof -
  show "0 \<le> x + y * xb" using assms by simp
  have "y * xb \<le> (ya - 1) * xb"
    by (rule mult_right_mono) (use assms in simp_all)
  then show "x + y * xb < ya * xb" using assms by (simp add: algebra_simps)
qed

lemma multiply_loop_length:
  assumes len: "int (length result) = ya * xb"
  shows "length
           (fold (\<lambda>y result.
                    fold (\<lambda>x result.
                            fold (\<lambda>z result. array_set result (x + y * xb) (f y x z result))
                              zs result)
                      [0..xb - 1] result)
              [0..ya - 1] result) = length result"
proof -
  let ?P = "\<lambda>r. length r = length result"
  have step: "?P (array_set r (x + y * xb) v)"
    if "?P r" "y \<in> set [0..ya - 1]" "x \<in> set [0..xb - 1]" for r x y v
    using that product_index_in_range [of y ya x xb] len
    by (simp add: length_array_set_in_range)
  have inner: "?P (fold (\<lambda>z result. array_set result (x + y * xb) (f y x z result)) zs r)"
    if "?P r" "y \<in> set [0..ya - 1]" "x \<in> set [0..xb - 1]" for r x y
    using that(1)
  proof (induction zs arbitrary: r)
    case Nil
    then show ?case by simp
  next
    case (Cons z zs)
    show ?case
      using Cons.IH [OF step [OF Cons.prems that(2,3)]] by simp
  qed
  have middle: "?P (fold (\<lambda>x result.
                            fold (\<lambda>z result. array_set result (x + y * xb) (f y x z result))
                              zs result) [0..xb - 1] r)"
    if "?P r" "y \<in> set [0..ya - 1]" for r y
    by (rule fold_invariant [where Q = "\<lambda>x. x \<in> set [0..xb - 1]" and P = ?P])
       (use that inner in auto)
  show ?thesis
    by (rule fold_invariant [where Q = "\<lambda>y. y \<in> set [0..ya - 1]" and P = ?P])
       (use middle in auto)
qed

lemma multiply_matrix_total:
  assumes "0 \<le> ySize a * xSize b" and "ySize a * xSize b < 2 ^ 32"
  shows "\<exists>vs. multiply a (Matrix b) = Inr \<lparr>ySize = ySize a, xSize = xSize b, vals = vs\<rparr>"
proof -
  define result where "result = replicate (nat (ySize a * xSize b)) (Some js_zero)"
  have len: "int (length result) = ySize a * xSize b"
    using assms(1) by (simp add: result_def)
  have new: "new_Array (ySize a * xSize b) (Some js_zero) = Inr result"
    using assms by (simp add: new_Array_def result_def)
  show ?thesis
    using len
    by (simp add: multiply_def new construct_def multiply_loop_length [OF len])
qed

lemma multiply_matrix_range_error:
  assumes "\<not> (0 \<le> ySize a * xSize b \<and> ySize a * xSize b < 2 ^ 32)"
  shows "multiply a (Matrix b) = Inl InvalidArrayLength"
  using assms by (auto simp: multiply_def new_Array_def)

text \<open>
  Claim C1 says that \<^verbatim>\<open>a.multiply(b)\<close> fails when \<open>xSize a\<close> differs from \<open>ySize b\<close>.
  \<^verbatim>\<open>multiply\<close> compares no dimensions: the product of a three by two matrix with a one
  by one matrix is a three by one matrix, whose elements are NaN since the second row of
  the multiplier, which does not exist, is read as \<^verbatim>\<open>undefined\<close>.
\<close>

theorem multiply_mismatch_counterexample:
  "xSize \<lparr>ySize = 3, xSize = 2, vals = map js_int [1, 2, 3, 4, 5, 6]\<rparr>
     \<noteq> ySize \<lparr>ySize = 1, xSize = 1, vals = [js_int 2]\<rparr>
   \<and> multiply \<lparr>ySize = 3, xSize = 2, vals = map js_int [1, 2, 3, 4, 5, 6]\<rparr>
        (Matrix \<lparr>ySize = 1, xSize = 1, vals = [js_int 2]\<rparr>)
       = Inr \<lparr>ySize = 3, xSize = 1, vals = [NaN, NaN, NaN]\<rparr>"
  by (simp add: multiply_def array_eval num_eval)

text \<open>
  Claim C1, amended. For every pair of matrices \<open>a\<close> and \<open>b\<close>, whether \<open>xSize a\<close> equals
  \<open>ySize b\<close> or not, \<^verbatim>\<open>a.multiply(b)\<close> returns a matrix with \<open>ySize a\<close> rows and
  \<open>xSize b\<close> columns whenever \<open>ySize a * xSize b\<close> is an array length; otherwise it fails
  with the RangeError of the array allocation. It raises no error about dimensions.
\<close>

theorem multiply_no_dimension_check:
  "(0 \<le> ySize a * xSize b \<and> ySize a * xSize b < 2 ^ 32 \<longrightarrow>
      (\<exists>vs. multiply a (Matrix b) = Inr \<lparr>ySize = ySize a, xSize = xSize b, vals = vs\<rparr>))
   \<and> (\<not> (0 \<le> ySize a * xSize b \<and> ySize a * xSize b < 2 ^ 32) \<longrightarrow>
      multiply a (Matrix b) = Inl InvalidArrayLength)"
  using multiply_matrix_total [of a b] multiply_matrix_range_error [of a b] by blast

theorem multiply_no_dimension_check_witness:
  "0 \<le> ySize \<lparr>ySize = 3, xSize = 2, vals = map js_int [1, 2, 3, 4, 5, 6]\<rparr>
          * xSize \<lparr>ySize = 1, xSize = 1, vals = [js_int 2]\<rparr>
   \<and> ySize \<lparr>ySize = 3, xSize = 2, vals = map js_int [1, 2, 3, 4, 5, 6]\<rparr>
          * xSize \<lparr>ySize = 1, xSize = 1, vals = [js_int 2]\<rparr> < 2 ^ 32
   \<and> (\<exists>vs. multiply \<lparr>ySize = 3, xSize = 2, vals = map js_int [1, 2, 3, 4, 5, 6]\<rparr>
               (Matrix \<lparr>ySize = 1, xSize = 1, vals = [js_int 2]\<rparr>)
             = Inr \<lparr>ySize = 3, xSize = 1, vals = vs\<rparr>)
   \<and> \<not> (0 \<le> ySize \<lparr>ySize = - 1, xSize = - 1, vals = [js_int 5]\<rparr>
               * xSize \<lparr>ySize = 1, xSize = 1, vals = [js_int 2]\<rparr>
          \<and> ySize \<lparr>ySize = - 1, xSize = - 1, vals = [js_int 5]\<rparr>
               * xSize \<lparr>ySize = 1, xSize = 1, vals = [js_int 2]\<rparr> < 2 ^ 32)
   \<and> multiply \<lparr>ySize = - 1, xSize = - 1, vals = [js_int 5]\<rparr>
        (Matrix \<lparr>ySize = 1, xSize = 1, vals = [js_int 2]\<rparr>) = Inl InvalidArrayLength"
  using multiply_no_dimension_check
      [of "\<lparr>ySize = 3, xSize = 2, vals = map js_int [1, 2, 3, 4, 5, 6]\<rparr>"
          "\<lparr>ySize = 1, xSize = 1, vals = [js_int 2]\<rparr>"]
    multiply_no_dimension_check
      [of "\<lparr>ySize = - 1, xSize = - 1, vals = [js_int 5]\<rparr>"
          "\<lparr>ySize = 1, xSize = 1, vals = [js_int 2]\<rparr>"]
  by simp

section \<open>Rotation\<close>

lemma fold_push: "fold (\<lambda>x acc. acc @ f x) xs a = a @ concat (map f xs)"
  by (induction xs arbitrary: a) simp_all

lemma fold_push1: "fold (\<lambda>x acc. acc @ [g x]) xs a = a @ map g xs"
  by (induction xs arbitrary: a) simp_all

lemma length_concat_uniform:
  "(\<And>x. x \<in> set xs \<Longrightarrow> length (f x) = n) \<Longrightarrow> length (concat (map f xs)) = length xs * n"
  by (induction xs) simp_all

lemma nth_concat_uniform:
  assumes "\<And>x. x \<in> set xs \<Longrightarrow> length (f x) = n" and "i < length xs" and "j < n"
  shows "concat (map f xs) ! (i * n + j) = f (xs ! i) ! j"
  using assms
proof (induction xs arbitrary: i)
  case Nil
  then show ?case by simp
next
  case (Cons x xs)
  show ?case
  proof (cases i)
    case 0
    with Cons.prems show ?thesis by (simp add: nth_append)
  next
    case (Suc k)
    have "concat (map f xs) ! (k * n + j) = f (xs ! k) ! j"
      using Cons.prems Suc by (intro Cons.IH) simp_all
    with Cons.prems Suc show ?thesis by (simp add: nth_append)
  qed
qed

lemma cell_index_in_range:
  assumes "0 \<le> y" "y < ya" "0 \<le> x" "x < xb"
  shows "0 \<le> y * xb + x" and "y * xb + x < ya * (xb::int)"
  using product_index_in_range [OF assms] by (simp_all add: add.commute)

lemma typed_get_ok:
  assumes "matrix_ok m" "0 \<le> y" "y < ySize m" "0 \<le> x" "x < xSize m"
  shows "typed_get (vals m) (y * xSize m + x) = Some (vals m ! nat (y * xSize m + x))"
  using cell_index_in_range [OF assms(2-5)] assms(1)
  by (simp add: typed_get_def matrix_ok_def)

lemma fround_elem:
  assumes "matrix_ok m" "0 \<le> y" "y < ySize m" "0 \<le> x" "x < xSize m"
  shows "fround (vals m ! nat (y * xSize m + x)) = vals m ! nat (y * xSize m + x)"
proof -
  have "y * xSize m + x < int (length (vals m))"
    using cell_index_in_range [OF assms(2-5)] assms(1) by (simp add: matrix_ok_def)
  then have "nat (y * xSize m + x) < length (vals m)"
    using cell_index_in_range(1) [OF assms(2-5)] by linarith
  then have "is_float32 (vals m ! nat (y * xSize m + x))"
    using assms(1) by (simp add: matrix_ok_def list_all_length)
  then show ?thesis by (simp add: is_float32_def)
qed

lemma length_rotate_spec:
  "0 \<le> ySize m \<Longrightarrow> 0 \<le> xSize m \<Longrightarrow> int (length (rotate_spec m)) = xSize m * ySize m"
  unfolding rotate_spec_def
  by (subst length_concat_uniform [where n = "nat (ySize m)"]) (simp_all add: nat_mult_distrib)

lemma rotate_m_ok:
  assumes ok: "matrix_ok m"
  shows "rotate_m m = Inr \<lparr>ySize = xSize m, xSize = ySize m, vals = rotate_spec m\<rparr>"
proof -
  have dims: "0 \<le> ySize m" "0 \<le> xSize m" using ok by (simp_all add: matrix_ok_def)
  have "map (\<lambda>a. fround (to_number a))
          (fold (\<lambda>x result.
                   fold (\<lambda>y result. result @ [typed_get (vals m) (y * xSize m + x)])
                     (rev [0..ySize m - 1]) result)
             [0..xSize m - 1] []) = rotate_spec m"
    unfolding fold_push1 fold_push rotate_spec_def
    by (auto simp: map_concat o_def typed_get_ok [OF ok] fround_elem [OF ok] to_number_def
        intro!: arg_cong [where f = concat])
  then show ?thesis
    using length_rotate_spec [OF dims] by (simp add: rotate_m_def construct_def Let_def)
qed

lemma nth_rotate_spec:
  assumes "0 \<le> i" "i < xSize m" "0 \<le> j" "j < ySize m"
  shows "rotate_spec m ! nat (i * ySize m + j) = vals m ! nat ((ySize m - 1 - j) * xSize m + i)"
proof -
  have "nat (i * ySize m + j) = nat i * nat (ySize m) + nat j"
    using assms by (simp add: nat_add_distrib nat_mult_distrib)
  moreover have "rotate_spec m ! (nat i * nat (ySize m) + nat j)
      = map (\<lambda>y. vals m ! nat (y * xSize m + ([0..xSize m - 1] ! nat i))) (rev [0..ySize m - 1]) ! nat j"
    unfolding rotate_spec_def
    by (rule nth_concat_uniform) (use assms in simp_all)
  moreover have "[0..xSize m - 1] ! nat i = i" using assms by simp
  moreover have "rev [0..ySize m - 1] ! nat j = ySize m - 1 - j"
    using assms by (simp add: rev_nth)
  ultimately show ?thesis using assms by simp
qed

text \<open>
  Claim C9. For every matrix, \<^verbatim>\<open>rotate()\<close> returns the matrix with \<open>xSize\<close> rows and
  \<open>ySize\<close> columns whose values are, for each source column \<open>x\<close> in increasing order,
  the elements \<open>source[y][x]\<close> for \<open>y\<close> from the last row down to the first; the element
  at row \<open>i\<close> and column \<open>j\<close> of the result is the source element at row
  \<open>ySize - 1 - j\<close> and column \<open>i\<close>, a clockwise quarter turn. In particular
  \<^verbatim>\<open>matrix(3,2)(1,2,3,4,5,6).rotate()\<close> is \<^verbatim>\<open>matrix(2,3)(5,3,1,6,4,2)\<close>.
\<close>

theorem rotate_clockwise:
  assumes "matrix_ok m"
  shows "rotate_m m = Inr \<lparr>ySize = xSize m, xSize = ySize m, vals = rotate_spec m\<rparr>
       \<and> (\<forall>i j. 0 \<le> i \<and> i < xSize m \<and> 0 \<le> j \<and> j < ySize m \<longrightarrow>
             rotate_spec m ! nat (i * ySize m + j)
               = vals m ! nat ((ySize m - 1 - j) * xSize m + i))
       \<and> rotate_m \<lparr>ySize = 3, xSize = 2, vals = map js_int [1, 2, 3, 4, 5, 6]\<rparr>
           = matrix 2 3 (map js_int [5, 3, 1, 6, 4, 2])"
proof -
  have "rotate_m \<lparr>ySize = 3, xSize = 2, vals = map js_int [1, 2, 3, 4, 5, 6]\<rparr>
      = matrix 2 3 (map js_int [5, 3, 1, 6, 4, 2])"
    by (simp add: rotate_m_def matrix_def array_eval num_eval)
  with rotate_m_ok [OF assms] nth_rotate_spec [of _ m] show ?thesis
    by simp
qed

theorem rotate_clockwise_witness:
  "matrix_ok \<lparr>ySize = 3, xSize = 2, vals = map js_int [1, 2, 3, 4, 5, 6]\<rparr>
   \<and> rotate_m \<lparr>ySize = 3, xSize = 2, vals = map js_int [1, 2, 3, 4, 5, 6]\<rparr>
       = Inr \<lparr>ySize = 2, xSize = 3, vals = map js_int [5, 3, 1, 6, 4, 2]\<rparr>
   \<and> (0::int) \<le> 1 \<and> 1 < xSize \<lparr>ySize = 3, xSize = 2, vals = map js_int [1, 2, 3, 4, 5, 6]\<rparr>
   \<and> (0::int) \<le> 2 \<and> 2 < ySize \<lparr>ySize = 3, xSize = 2, vals = map js_int [1, 2, 3, 4, 5, 6]\<rparr>
   \<and> rotate_spec \<lparr>ySize = 3, xSize = 2, vals = map js_int [1, 2, 3, 4, 5, 6]\<rparr> ! nat (1 * 3 + 2)
       = js_int 2"
proof -
  have ok: "matrix_ok \<lparr>ySize = 3, xSize = 2, vals = map js_int [1, 2, 3, 4, 5, 6]\<rparr>"
    by (simp add: matrix_ok_def is_float32_def num_eval)
  note th = rotate_clockwise [OF ok]
  from th have cell: "0 \<le> i \<and> i < 2 \<and> 0 \<le> j \<and> j < 3 \<longrightarrow>
      rotate_spec \<lparr>ySize = 3, xSize = 2, vals = map js_int [1, 2, 3, 4, 5, 6]\<rparr> ! nat (i * 3 + j)
      = map js_int [1, 2, 3, 4, 5, 6] ! nat ((3 - 1 - j) * 2 + i)" for i j
    by simp
  have "rotate_spec \<lparr>ySize = 3, xSize = 2, vals = map js_int [1, 2, 3, 4, 5, 6]\<rparr> ! nat (1 * 3 + 2)
      = js_int 2"
    using cell [of 1 2] by simp
  moreover have "rotate_spec \<lparr>ySize = 3, xSize = 2, vals = map js_int [1, 2, 3, 4, 5, 6]\<rparr>
      = map js_int [5, 3, 1, 6, 4, 2]"
    by (simp add: rotate_spec_def upto_rec1)
  ultimately show ?thesis
    using th ok by simp
qed

section \<open>Minors and the determinant\<close>

lemma concat_map_if_single:
  "concat (map (\<lambda>x. if P x then [g x] else []) xs) = map g (filter P xs)"
  by (induction xs) simp_all

lemma concat_map_if:
  "concat (map (\<lambda>x. if P x then f x else []) xs) = concat (map f (filter P xs))"
  by (induction xs) simp_all

lemma filter_neq_upto:
  assumes "a \<le> x" "x \<le> b"
  shows "filter (\<lambda>i. i \<noteq> x) [a..b] = [a..x - 1] @ [x + 1..b]"
proof -
  have "[a..b] = [a..x - 1] @ x # [x + 1..b]" using assms by (rule upto_split3)
  moreover have "filter (\<lambda>i. i \<noteq> x) [a..x - 1] = [a..x - 1]" by (rule filter_True) simp
  moreover have "filter (\<lambda>i. i \<noteq> x) [x + 1..b] = [x + 1..b]" by (rule filter_True) simp
  ultimately show ?thesis by simp
qed

lemma length_filter_neq_upto:
  "0 \<le> x \<Longrightarrow> x < n \<Longrightarrow> length (filter (\<lambda>i. i \<noteq> x) [0..n - 1]) = nat (n - 1)"
  by (simp add: filter_neq_upto)

lemma minor_loop:
  "fold (\<lambda>iy values.
           fold (\<lambda>ix values.
                   let sourceix = iy * xSize m + ix
                   in if sourceix mod xSize m \<noteq> x \<and> sourceix div xSize m \<noteq> y
                      then values @ [typed_get (vals m) sourceix]
                      else values)
             [0..xSize m - 1] values)
     [0..ySize m - 1] []
   = concat (map (\<lambda>iy. map (\<lambda>ix. typed_get (vals m) (iy * xSize m + ix))
                                  (filter (\<lambda>ix. ix \<noteq> x) [0..xSize m - 1]))
                      (filter (\<lambda>iy. iy \<noteq> y) [0..ySize m - 1]))"
proof -
  have inner: "fold (\<lambda>ix values.
                   let sourceix = iy * xSize m + ix
                   in if sourceix mod xSize m \<noteq> x \<and> sourceix div xSize m \<noteq> y
                      then values @ [typed_get (vals m) sourceix]
                      else values)
             [0..xSize m - 1] vs
      = vs @ (if iy \<noteq> y
                  then map (\<lambda>ix. typed_get (vals m) (iy * xSize m + ix))
                         (filter (\<lambda>ix. ix \<noteq> x) [0..xSize m - 1])
                  else [])" for iy vs
  proof -
    have "fold (\<lambda>ix values.
                   let sourceix = iy * xSize m + ix
                   in if sourceix mod xSize m \<noteq> x \<and> sourceix div xSize m \<noteq> y
                      then values @ [typed_get (vals m) sourceix]
                      else values)
             [0..xSize m - 1] vs
        = fold (\<lambda>ix values. values @ (if ix \<noteq> x \<and> iy \<noteq> y
                    then [typed_get (vals m) (iy * xSize m + ix)] else []))
             [0..xSize m - 1] vs"
      by (rule fold_cong) (auto simp: Let_def fun_eq_iff)
    also have "\<dots> = vs @ concat (map (\<lambda>ix. if ix \<noteq> x \<and> iy \<noteq> y
                    then [typed_get (vals m) (iy * xSize m + ix)] else []) [0..xSize m - 1])"
      by (rule fold_push)
    finally show ?thesis
      by (cases "iy = y") (simp_all add: concat_map_if_single)
  qed
  show ?thesis
    unfolding inner by (simp add: fold_push concat_map_if)
qed

lemma cell_nat_less:
  assumes "matrix_ok m" "0 \<le> y" "y < ySize m" "0 \<le> x" "x < xSize m"
  shows "nat (y * xSize m + x) < length (vals m)"
proof -
  have "y * xSize m + x < int (length (vals m))"
    using cell_index_in_range [OF assms(2-5)] assms(1) by (simp add: matrix_ok_def)
  then show ?thesis
    using cell_index_in_range(1) [OF assms(2-5)] by linarith
qed

lemma minor_spec_vals:
  assumes ok: "matrix_ok m"
  shows "map (\<lambda>a. fround (to_number a))
           (concat (map (\<lambda>iy. map (\<lambda>ix. typed_get (vals m) (iy * xSize m + ix))
                                  (filter (\<lambda>ix. ix \<noteq> x) [0..xSize m - 1]))
                      (filter (\<lambda>iy. iy \<noteq> y) [0..ySize m - 1])))
         = vals (minor_spec m y x)"
  by (auto simp: minor_spec_def map_concat o_def typed_get_ok [OF ok] fround_elem [OF ok]
      to_number_def intro!: arg_cong [where f = concat])

lemma length_minor_spec:
  assumes "0 \<le> y" "y < ySize m" "0 \<le> x" "x < xSize m"
  shows "int (length (vals (minor_spec m y x))) = (ySize m - 1) * (xSize m - 1)"
proof -
  have "length (vals (minor_spec m y x))
      = length (filter (\<lambda>iy. iy \<noteq> y) [0..ySize m - 1]) * nat (xSize m - 1)"
    unfolding minor_spec_def using assms
    by (simp only: matrix.simps) (rule length_concat_uniform, simp add: length_filter_neq_upto)
  then show ?thesis
    using assms by (simp add: length_filter_neq_upto nat_mult_distrib)
qed

lemma minor_ok:
  assumes ok: "matrix_ok m" and "0 \<le> y" "y < ySize m" "0 \<le> x" "x < xSize m"
  shows "minor m y x = Inr (minor_spec m y x)"
  unfolding minor_def minor_loop
  using length_minor_spec [OF assms(2-5)]
  by (simp add: construct_def Let_def minor_spec_vals [OF ok]) (simp add: minor_spec_def)

lemma matrix_ok_minor_spec:
  assumes ok: "matrix_ok m" and "0 \<le> y" "y < ySize m" "0 \<le> x" "x < xSize m"
  shows "matrix_ok (minor_spec m y x)"
proof -
  have "is_float32 v" if "v \<in> set (vals (minor_spec m y x))" for v
  proof -
    from that obtain iy ix where "0 \<le> iy" "iy < ySize m" "0 \<le> ix" "ix < xSize m"
      and v: "v = vals m ! nat (iy * xSize m + ix)"
      by (auto simp: minor_spec_def)
    then have "nat (iy * xSize m + ix) < length (vals m)"
      by (intro cell_nat_less [OF ok])
    then show ?thesis
      using ok v by (simp add: matrix_ok_def list_all_length)
  qed
  then have "list_all is_float32 (vals (minor_spec m y x))"
    by (simp add: list_all_iff)
  with length_minor_spec [OF assms(2-5)] assms(2-5) show ?thesis
    by (simp add: matrix_ok_def) (simp add: minor_spec_def)
qed

lemma fold_sum_Inr:
  "fold (\<lambda>x sum. case sum of Inl e \<Rightarrow> Inl e | Inr s \<Rightarrow> Inr (js_add s (t x))) xs (Inr a)
     = Inr (foldl js_add a (map t xs))"
  by (induction xs arbitrary: a) simp_all

lemma determinant_refines:
  "matrix_ok m \<Longrightarrow> xSize m = ySize m \<Longrightarrow> determinant m = Inr (determinant_spec m)"
proof (induction m rule: determinant_spec.induct)
  case (1 m)
  show ?case
  proof (cases "xSize m = 2")
    case True
    then have "length (vals m) = 4" using "1.prems" by (simp add: matrix_ok_def)
    then show ?thesis
      using True "1.prems"
      by (simp add: determinant_2 determinant_spec.simps get_def typed_get_def to_number_def)
  next
    case False
    have step: "(case minor m 0 x of
                   Inl e \<Rightarrow> Inl e
                 | Inr mi \<Rightarrow>
                     (case determinant mi of
                        Inl e \<Rightarrow> Inl e
                      | Inr d \<Rightarrow>
                          Inr (js_add s
                                 (js_mul (js_mul (to_number (typed_get (vals m) x)) d)
                                    (pow_neg1 x)))))
               = Inr (js_add s
                        (js_mul (js_mul (vals m ! nat x) (determinant_spec (minor_spec m 0 x)))
                           (pow_neg1 x)))"
      if x: "x \<in> set [0..xSize m - 1]" for x s
    proof -
      from x "1.prems" have r: "0 \<le> (0::int)" "0 < ySize m" "0 \<le> x" "x < xSize m" by simp_all
      have mi: "minor m 0 x = Inr (minor_spec m 0 x)"
        using "1.prems"(1) r by (rule minor_ok)
      have "matrix_ok (minor_spec m 0 x)"
        using "1.prems"(1) r by (rule matrix_ok_minor_spec)
      moreover have "xSize (minor_spec m 0 x) = ySize (minor_spec m 0 x)"
        using "1.prems"(2) by (simp add: minor_spec_def)
      ultimately have d: "determinant (minor_spec m 0 x) = Inr (determinant_spec (minor_spec m 0 x))"
        using False x by (intro "1.IH")
      have "typed_get (vals m) x = Some (vals m ! nat x)"
        using typed_get_ok [OF "1.prems"(1) r] by simp
      with mi d show ?thesis by (simp add: to_number_def)
    qed
    have "determinant m
        = fold (\<lambda>x sum. case sum of Inl e \<Rightarrow> Inl e
                  | Inr s \<Rightarrow> Inr (js_add s
                        (js_mul (js_mul (vals m ! nat x) (determinant_spec (minor_spec m 0 x)))
                           (pow_neg1 x))))
            [0..xSize m - 1] (Inr js_zero)"
      unfolding determinant_n [OF "1.prems"(2) False]
      by (rule fold_cong) (auto simp: step fun_eq_iff split: sum.splits)
    then show ?thesis
      using False by (simp add: fold_sum_Inr determinant_spec.simps [of m])
  qed
qed

text \<open>
  Claim C7. For every square matrix with at least two rows \<^verbatim>\<open>determinant()\<close> returns a
  number: \<open>ad - bc\<close> for a two by two matrix, and otherwise the sum, over the columns
  \<open>x\<close> in increasing order, of \<open>element(0, x) * minor(0, x).determinant() * (-1) ^ x\<close>,
  where \<^verbatim>\<open>minor(0, x)\<close> returns the matrix without row 0 and column \<open>x\<close> and its
  determinant is again the value of this description. In particular the determinant of
  \<^verbatim>\<open>matrix(3,3)(1,5,3,2,4,7,4,6,2)\<close> is 74.
\<close>

theorem determinant_cofactor_expansion:
  assumes "matrix_ok m" and "xSize m = ySize m" and "2 \<le> xSize m"
  shows "determinant m =
           Inr (if xSize m = 2 then
                  js_sub (js_mul (vals m ! 0) (vals m ! 3)) (js_mul (vals m ! 1) (vals m ! 2))
                else
                  foldl js_add js_zero
                    (map (\<lambda>x. js_mul (js_mul (vals m ! nat x) (determinant_spec (minor_spec m 0 x)))
                                 (pow_neg1 x))
                       [0..xSize m - 1]))
       \<and> (\<forall>x. 0 \<le> x \<and> x < xSize m \<longrightarrow>
             minor m 0 x = Inr (minor_spec m 0 x)
           \<and> determinant (minor_spec m 0 x) = Inr (determinant_spec (minor_spec m 0 x)))
       \<and> determinant \<lparr>ySize = 3, xSize = 3, vals = map js_int [1, 5, 3, 2, 4, 7, 4, 6, 2]\<rparr>
           = Inr (js_int 74)"
proof -
  have "determinant m = Inr (determinant_spec m)"
    using assms(1,2) by (rule determinant_refines)
  then have 1: "determinant m =
           Inr (if xSize m = 2 then
                  js_sub (js_mul (vals m ! 0) (vals m ! 3)) (js_mul (vals m ! 1) (vals m ! 2))
                else
                  foldl js_add js_zero
                    (map (\<lambda>x. js_mul (js_mul (vals m ! nat x) (determinant_spec (minor_spec m 0 x)))
                                 (pow_neg1 x))
                       [0..xSize m - 1]))"
    by (subst (asm) determinant_spec.simps) simp
  have 2: "minor m 0 x = Inr (minor_spec m 0 x)
      \<and> determinant (minor_spec m 0 x) = Inr (determinant_spec (minor_spec m 0 x))"
    if "0 \<le> x \<and> x < xSize m" for x
  proof -
    from that assms have r: "0 \<le> (0::int)" "0 < ySize m" "0 \<le> x" "x < xSize m" by simp_all
    have "matrix_ok (minor_spec m 0 x)" using assms(1) r by (rule matrix_ok_minor_spec)
    moreover have "xSize (minor_spec m 0 x) = ySize (minor_spec m 0 x)"
      using assms(2) by (simp add: minor_spec_def)
    ultimately have "determinant (minor_spec m 0 x) = Inr (determinant_spec (minor_spec m 0 x))"
      by (rule determinant_refines)
    with minor_ok [OF assms(1) r] show ?thesis by simp
  qed
  have 3: "determinant \<lparr>ySize = 3, xSize = 3, vals = map js_int [1, 5, 3, 2, 4, 7, 4, 6, 2]\<rparr>
           = Inr (js_int 74)"
    by (simp add: determinant_2 determinant_n minor_def array_eval num_eval)
  from 1 2 3 show ?thesis by blast
qed

theorem determinant_cofactor_expansion_witness:
  "matrix_ok \<lparr>ySize = 3, xSize = 3, vals = map js_int [1, 5, 3, 2, 4, 7, 4, 6, 2]\<rparr>
   \<and> xSize \<lparr>ySize = 3, xSize = 3, vals = map js_int [1, 5, 3, 2, 4, 7, 4, 6, 2]\<rparr>
       = ySize \<lparr>ySize = 3, xSize = 3, vals = map js_int [1, 5, 3, 2, 4, 7, 4, 6, 2]\<rparr>
   \<and> 2 \<le> xSize \<lparr>ySize = 3, xSize = 3, vals = map js_int [1, 5, 3, 2, 4, 7, 4, 6, 2]\<rparr>
   \<and> (0::int) \<le> 1
   \<and> 1 < xSize \<lparr>ySize = 3, xSize = 3, vals = map js_int [1, 5, 3, 2, 4, 7, 4, 6, 2]\<rparr>
   \<and> minor \<lparr>ySize = 3, xSize = 3, vals = map js_int [1, 5, 3, 2, 4, 7, 4, 6, 2]\<rparr> 0 1
       = Inr \<lparr>ySize = 2, xSize = 2, vals = map js_int [2, 7, 4, 2]\<rparr>
   \<and> determinant \<lparr>ySize = 3, xSize = 3, vals = map js_int [1, 5, 3, 2, 4, 7, 4, 6, 2]\<rparr>
       = Inr (js_int 74)
   \<and> matrix_ok \<lparr>ySize = 2, xSize = 2, vals = map js_int [1, 2, 3, 4]\<rparr>
   \<and> determinant \<lparr>ySize = 2, xSize = 2, vals = map js_int [1, 2, 3, 4]\<rparr> = Inr (js_int (- 2))"
proof -
  have ok3: "matrix_ok \<lparr>ySize = 3, xSize = 3, vals = map js_int [1, 5, 3, 2, 4, 7, 4, 6, 2]\<rparr>"
    by (simp add: matrix_ok_def is_float32_def num_eval)
  have ok2: "matrix_ok \<lparr>ySize = 2, xSize = 2, vals = map js_int [1, 2, 3, 4]\<rparr>"
    by (simp add: matrix_ok_def is_float32_def num_eval)
  have spec: "minor_spec \<lparr>ySize = 3, xSize = 3, vals = map js_int [1, 5, 3, 2, 4, 7, 4, 6, 2]\<rparr> 0 1
      = \<lparr>ySize = 2, xSize = 2, vals = map js_int [2, 7, 4, 2]\<rparr>"
    by (simp add: minor_spec_def upto_rec1)
  have sq3: "xSize \<lparr>ySize = 3, xSize = 3, vals = map js_int [1, 5, 3, 2, 4, 7, 4, 6, 2]\<rparr>
      = ySize \<lparr>ySize = 3, xSize = 3, vals = map js_int [1, 5, 3, 2, 4, 7, 4, 6, 2]\<rparr>"
    and ge3: "2 \<le> xSize \<lparr>ySize = 3, xSize = 3, vals = map js_int [1, 5, 3, 2, 4, 7, 4, 6, 2]\<rparr>"
    by simp_all
  note th3 = determinant_cofactor_expansion [OF ok3 sq3 ge3]
  have "determinant \<lparr>ySize = 3, xSize = 3, vals = map js_int [1, 5, 3, 2, 4, 7, 4, 6, 2]\<rparr>
       = Inr (js_int 74)"
    using th3 [THEN conjunct2, THEN conjunct2] .
  moreover
  have "minor \<lparr>ySize = 3, xSize = 3, vals = map js_int [1, 5, 3, 2, 4, 7, 4, 6, 2]\<rparr> 0 1
      = Inr (minor_spec \<lparr>ySize = 3, xSize = 3, vals = map js_int [1, 5, 3, 2, 4, 7, 4, 6, 2]\<rparr> 0 1)"
    using th3 [THEN conjunct2, THEN conjunct1, rule_format, of 1] by simp
  moreover from determinant_cofactor_expansion [OF ok2]
  have "determinant \<lparr>ySize = 2, xSize = 2, vals = map js_int [1, 2, 3, 4]\<rparr> = Inr (js_int (- 2))"
    by (simp add: num_eval)
  ultimately show ?thesis
    using ok3 ok2 spec by simp
qed

section \<open>Transposition and the adjugate\<close>

lemma fold_product:
  "fold (\<lambda>y. fold (\<lambda>x. F y x) xs) ys = fold (\<lambda>(y, x). F y x) (List.product ys xs)"
proof (induction ys)
  case Nil
  then show ?case by simp
next
  case (Cons y ys)
  have "fold (\<lambda>(y, x). F y x) (map (Pair y) xs) = fold (F y) xs"
    by (simp add: fold_map o_def)
  with Cons show ?case by simp
qed

lemma fold_array_set_distinct:
  assumes "distinct (map g ps)" and "\<forall>p\<in>set ps. 0 \<le> g p \<and> g p < int (length r)"
  shows "length (fold (\<lambda>p r. array_set r (g p) (h p)) ps r) = length r
       \<and> (\<forall>p\<in>set ps. fold (\<lambda>p r. array_set r (g p) (h p)) ps r ! nat (g p) = h p)
       \<and> (\<forall>k. int k \<notin> g ` set ps \<longrightarrow> fold (\<lambda>p r. array_set r (g p) (h p)) ps r ! k = r ! k)"
  using assms
proof (induction ps arbitrary: r)
  case Nil
  then show ?case by simp
next
  case (Cons a ps)
  let ?r = "array_set r (g a) (h a)"
  have a: "0 \<le> g a" "g a < int (length r)" using Cons.prems(2) by simp_all
  then have r': "?r = r[nat (g a) := h a]" by (simp add: array_set_def)
  have len: "length ?r = length r" by (simp add: r')
  have IH: "length (fold (\<lambda>p r. array_set r (g p) (h p)) ps ?r) = length ?r
       \<and> (\<forall>p\<in>set ps. fold (\<lambda>p r. array_set r (g p) (h p)) ps ?r ! nat (g p) = h p)
       \<and> (\<forall>k. int k \<notin> g ` set ps \<longrightarrow> fold (\<lambda>p r. array_set r (g p) (h p)) ps ?r ! k = ?r ! k)"
    using Cons.prems by (intro Cons.IH) (simp_all add: len)
  have "g a \<notin> g ` set ps" using Cons.prems(1) by simp
  then have "int (nat (g a)) \<notin> g ` set ps" using a by simp
  with IH have "fold (\<lambda>p r. array_set r (g p) (h p)) ps ?r ! nat (g a) = ?r ! nat (g a)"
    by blast
  also have "\<dots> = h a" using a by (simp add: r')
  finally have here: "fold (\<lambda>p r. array_set r (g p) (h p)) ps ?r ! nat (g a) = h a" .
  have other: "fold (\<lambda>p r. array_set r (g p) (h p)) ps ?r ! k = r ! k"
    if "int k \<notin> g ` set (a # ps)" for k
  proof -
    from that have "int k \<notin> g ` set ps" and "int k \<noteq> g a" by auto
    then have "fold (\<lambda>p r. array_set r (g p) (h p)) ps ?r ! k = ?r ! k" using IH by blast
    also have "\<dots> = r ! k" using \<open>int k \<noteq> g a\<close> a by (simp add: r')
    finally show ?thesis .
  qed
  from IH here other len show ?case by auto
qed

lemma transpose_index_inj:
  assumes "0 \<le> y" "y < n" "0 \<le> y'" "y' < n" and eq: "y + x * n = y' + x' * (n::int)"
  shows "y = y' \<and> x = x'"
proof -
  have "(y + x * n) mod n = y" "(y' + x' * n) mod n = y'" using assms(1-4) by simp_all
  with eq have "y = y'" by simp
  with eq assms(1,2) show ?thesis by simp
qed

lemma length_transpose_spec:
  "0 \<le> ySize m \<Longrightarrow> 0 \<le> xSize m \<Longrightarrow>
   length (vals (transpose_spec m)) = nat (xSize m) * nat (ySize m)"
  unfolding transpose_spec_def
  by (simp only: matrix.simps) (subst length_concat_uniform [where n = "nat (ySize m)"], simp_all)

lemma nth_transpose_spec:
  assumes "0 \<le> x" "x < xSize m" "0 \<le> y" "y < ySize m"
  shows "vals (transpose_spec m) ! nat (y + x * ySize m) = vals m ! nat (y * xSize m + x)"
proof -
  have "nat (y + x * ySize m) = nat x * nat (ySize m) + nat y"
    using assms by (simp add: nat_add_distrib nat_mult_distrib)
  moreover have "vals (transpose_spec m) ! (nat x * nat (ySize m) + nat y)
      = map (\<lambda>y. vals m ! nat (y * xSize m + ([0..xSize m - 1] ! nat x))) [0..ySize m - 1] ! nat y"
    unfolding transpose_spec_def
    by (simp only: matrix.simps) (rule nth_concat_uniform, use assms in simp_all)
  ultimately show ?thesis using assms by simp
qed

lemma transpose_loop:
  assumes ok: "matrix_ok m"
  defines "result \<equiv>
     fold (\<lambda>y result.
             fold (\<lambda>x result.
                     array_set result (y + x * ySize m) (typed_get (vals m) (y * xSize m + x)))
               [0..xSize m - 1] result)
       [0..ySize m - 1] (replicate (nat (xSize m * ySize m)) None)"
  shows "map (\<lambda>a. fround (to_number a)) result = vals (transpose_spec m)"
proof -
  define ps where "ps = List.product [0..ySize m - 1] [0..xSize m - 1]"
  define g where "g = (\<lambda>(y, x). y + x * ySize m)"
  define h where "h = (\<lambda>(y, x). typed_get (vals m) (y * xSize m + x))"
  define r0 :: "jsnum option list" where "r0 = replicate (nat (xSize m * ySize m)) None"
  have dims: "0 \<le> ySize m" "0 \<le> xSize m" using ok by (simp_all add: matrix_ok_def)
  have res: "result = fold (\<lambda>p r. array_set r (g p) (h p)) ps r0"
    unfolding result_def fold_product ps_def g_def h_def r0_def
    by (simp add: split_def)
  have "inj_on g (set ps)"
    unfolding inj_on_def ps_def g_def
    by (auto dest: transpose_index_inj [rotated 4])
  moreover have "distinct ps" unfolding ps_def by (simp add: distinct_product)
  ultimately have d: "distinct (map g ps)" by (simp add: distinct_map)
  have rng: "\<forall>p\<in>set ps. 0 \<le> g p \<and> g p < int (length r0)"
  proof
    fix p assume "p \<in> set ps"
    then obtain y x where p: "p = (y, x)" "0 \<le> y" "y < ySize m" "0 \<le> x" "x < xSize m"
      by (auto simp: ps_def)
    from product_index_in_range [OF p(4,5,2,3)] dims show "0 \<le> g p \<and> g p < int (length r0)"
      by (simp add: g_def p(1) r0_def)
  qed
  note facts = fold_array_set_distinct [OF d rng, of h, folded res]
  have len: "length result = nat (xSize m) * nat (ySize m)"
    using facts dims by (simp add: r0_def nat_mult_distrib)
  show ?thesis
  proof (rule nth_equalityI)
    show "length (map (\<lambda>a. fround (to_number a)) result) = length (vals (transpose_spec m))"
      using len length_transpose_spec [OF dims] by simp
  next
    fix k assume "k < length (map (\<lambda>a. fround (to_number a)) result)"
    then have k: "k < nat (xSize m) * nat (ySize m)" using len by simp
    then have pos: "0 < ySize m" by (cases "ySize m = 0") (use dims in simp_all)
    define y where "y = int k mod ySize m"
    define x where "x = int k div ySize m"
    have y: "0 \<le> y" "y < ySize m" using pos by (simp_all add: y_def)
    have x0: "0 \<le> x" using pos by (simp add: x_def pos_imp_zdiv_nonneg_iff)
    have "int k < xSize m * ySize m" using k dims by (simp add: nat_mult_distrib [symmetric] nat_less_iff)
    moreover have "x * ySize m + y = int k" by (simp add: x_def y_def)
    ultimately have "x * ySize m < xSize m * ySize m" using y by linarith
    then have x1: "x < xSize m" using pos by simp
    have gk: "g (y, x) = int k" by (simp add: g_def x_def y_def)
    have "(y, x) \<in> set ps" using x0 x1 y by (simp add: ps_def)
    with facts have "result ! nat (g (y, x)) = h (y, x)" by blast
    then have "result ! k = Some (vals m ! nat (y * xSize m + x))"
      using typed_get_ok [OF ok y x0 x1] by (simp add: gk h_def)
    moreover have "vals (transpose_spec m) ! k = vals m ! nat (y * xSize m + x)"
      using nth_transpose_spec [OF x0 x1 y] gk by (simp add: g_def)
    ultimately show "map (\<lambda>a. fround (to_number a)) result ! k = vals (transpose_spec m) ! k"
      using k len fround_elem [OF ok y x0 x1] by (simp add: to_number_def)
  qed
qed

lemma transpose_m_ok:
  assumes ok: "matrix_ok m" and small: "xSize m * ySize m < 2 ^ 32"
  shows "transpose_m m = Inr (transpose_spec m)"
proof -
  have dims: "0 \<le> ySize m" "0 \<le> xSize m" using ok by (simp_all add: matrix_ok_def)
  have new: "new_Array (xSize m * ySize m) (None :: jsnum option)
      = Inr (replicate (nat (xSize m * ySize m)) None)"
    using dims small by (simp add: new_Array_def)
  have "int (length (vals (transpose_spec m))) = xSize m * ySize m"
    using length_transpose_spec [OF dims] dims by simp
  then show ?thesis
    unfolding transpose_m_def new
    by (simp add: construct_def Let_def transpose_loop [OF ok]) (simp add: transpose_spec_def)
qed

lemma matrix_ok_transpose_spec:
  assumes ok: "matrix_ok m"
  shows "matrix_ok (transpose_spec m)"
proof -
  have dims: "0 \<le> ySize m" "0 \<le> xSize m" using ok by (simp_all add: matrix_ok_def)
  have "is_float32 v" if "v \<in> set (vals (transpose_spec m))" for v
  proof -
    from that obtain iy ix where "0 \<le> iy" "iy < ySize m" "0 \<le> ix" "ix < xSize m"
      and v: "v = vals m ! nat (iy * xSize m + ix)"
      by (auto simp: transpose_spec_def)
    then have "nat (iy * xSize m + ix) < length (vals m)"
      by (intro cell_nat_less [OF ok])
    then show ?thesis
      using ok v by (simp add: matrix_ok_def list_all_length)
  qed
  then have "list_all is_float32 (vals (transpose_spec m))"
    by (simp add: list_all_iff)
  with length_transpose_spec [OF dims] dims show ?thesis
    by (simp add: matrix_ok_def) (simp add: transpose_spec_def)
qed

lemma fold_collect:
  "fold (\<lambda>x res. case res of Inl e \<Rightarrow> Inl e | Inr ms \<Rightarrow> Inr (ms @ g x)) xs res
     = (case res of Inl e \<Rightarrow> Inl e | Inr ms \<Rightarrow> Inr (ms @ concat (map g xs)))"
  by (induction xs arbitrary: res) (simp_all split: sum.splits)

lemma minors_ok:
  assumes ok: "matrix_ok m"
  shows "minors m = Inr (minors_spec m)"
proof -
  have inner: "fold (\<lambda>x result.
                     case result of
                       Inl e \<Rightarrow> Inl e
                     | Inr ms \<Rightarrow> (case minor m y x of Inl e \<Rightarrow> Inl e | Inr mi \<Rightarrow> Inr (ms @ [mi])))
               [0..xSize m - 1] res
      = (case res of Inl e \<Rightarrow> Inl e
         | Inr ms \<Rightarrow> Inr (ms @ map (\<lambda>x. minor_spec m y x) [0..xSize m - 1]))"
    if y: "y \<in> set [0..ySize m - 1]" for y res
  proof -
    have "fold (\<lambda>x result.
                     case result of
                       Inl e \<Rightarrow> Inl e
                     | Inr ms \<Rightarrow> (case minor m y x of Inl e \<Rightarrow> Inl e | Inr mi \<Rightarrow> Inr (ms @ [mi])))
               [0..xSize m - 1] res
        = fold (\<lambda>x res. case res of Inl e \<Rightarrow> Inl e | Inr ms \<Rightarrow> Inr (ms @ [minor_spec m y x]))
               [0..xSize m - 1] res"
      using y by (intro fold_cong) (auto simp: minor_ok [OF ok] fun_eq_iff split: sum.splits)
    then show ?thesis by (simp add: fold_collect split: sum.splits)
  qed
  have "minors m
      = fold (\<lambda>y res. case res of Inl e \<Rightarrow> Inl e
                | Inr ms \<Rightarrow> Inr (ms @ map (\<lambda>x. minor_spec m y x) [0..xSize m - 1]))
          [0..ySize m - 1] (Inr [])"
    unfolding minors_def
    by (rule fold_cong) (auto simp: inner fun_eq_iff)
  then show ?thesis by (simp add: fold_collect minors_spec_def)
qed

lemma length_minors_spec:
  "0 \<le> ySize m \<Longrightarrow> 0 \<le> xSize m \<Longrightarrow> length (minors_spec m) = nat (ySize m) * nat (xSize m)"
  unfolding minors_spec_def
  by (subst length_concat_uniform [where n = "nat (xSize m)"]) simp_all

lemma minors_spec_member:
  assumes ok: "matrix_ok m" and sq: "xSize m = ySize m" and mi: "mi \<in> set (minors_spec m)"
  shows "matrix_ok mi \<and> xSize mi = ySize mi"
proof -
  from mi obtain y x where r: "0 \<le> y" "y < ySize m" "0 \<le> x" "x < xSize m"
    and eq: "mi = minor_spec m y x"
    by (auto simp: minors_spec_def)
  from matrix_ok_minor_spec [OF ok r] sq show ?thesis
    by (simp add: eq) (simp add: minor_spec_def)
qed

lemma map_signed_determinants_ok:
  assumes "\<forall>mi\<in>set ms. determinant mi = Inr (determinant_spec mi)"
  shows "map_signed_determinants ix ms
       = Inr (map (\<lambda>k. Some (js_mul (determinant_spec (ms ! k)) (pow_neg1 (ix + int k))))
                [0..<length ms])"
  using assms
proof (induction ms arbitrary: ix)
  case Nil
  then show ?case by simp
next
  case (Cons mi ms)
  have "[0..<length (mi # ms)] = 0 # map Suc [0..<length ms]"
    by (simp add: upt_conv_Cons map_Suc_upt del: upt_Suc)
  moreover have "map_signed_determinants (ix + 1) ms
       = Inr (map (\<lambda>k. Some (js_mul (determinant_spec (ms ! k)) (pow_neg1 (ix + 1 + int k))))
                [0..<length ms])"
    using Cons.prems by (intro Cons.IH) simp
  ultimately show ?case
    using Cons.prems by (simp add: o_def add.assoc del: upt_Suc)
qed

lemma adjugate_ok:
  assumes ok: "matrix_ok m" and sq: "xSize m = ySize m" and small: "xSize m * ySize m < 2 ^ 32"
  shows "adjugate m = Inr (adjugate_spec m)"
proof -
  define t where "t = transpose_spec m"
  define ms where "ms = minors_spec t"
  have dims: "0 \<le> ySize m" "0 \<le> xSize m" using ok by (simp_all add: matrix_ok_def)
  have t: "transpose_m m = Inr t" unfolding t_def using ok small by (rule transpose_m_ok)
  have okt: "matrix_ok t" unfolding t_def using ok by (rule matrix_ok_transpose_spec)
  have sqt: "xSize t = ySize t" using sq by (simp add: t_def transpose_spec_def)
  have mins: "minors t = Inr ms" unfolding ms_def using okt by (rule minors_ok)
  have "\<forall>mi\<in>set ms. determinant mi = Inr (determinant_spec mi)"
    using minors_spec_member [OF okt sqt] determinant_refines by (auto simp: ms_def)
  then have ds: "map_signed_determinants 0 ms
       = Inr (map (\<lambda>k. Some (js_mul (determinant_spec (ms ! k)) (pow_neg1 (int k))))
                [0..<length ms])"
    using map_signed_determinants_ok [of ms 0] by simp
  have "length ms = nat (ySize t) * nat (xSize t)"
    unfolding ms_def using okt by (intro length_minors_spec) (simp_all add: matrix_ok_def)
  then have len: "int (length ms) = ySize m * xSize m"
    using dims by (simp add: t_def transpose_spec_def mult.commute)
  show ?thesis
    using len
    by (simp add: adjugate_def t mins ds construct_def Let_def o_def to_number_def
        adjugate_spec_def t_def [symmetric] ms_def [symmetric])
qed

lemma adjugate_range_error:
  assumes ok: "matrix_ok m" and big: "\<not> xSize m * ySize m < 2 ^ 32"
  shows "adjugate m = Inl InvalidArrayLength"
  using assms by (simp add: adjugate_def transpose_m_def new_Array_def)

lemma adjugate_identity_4:
  "adjugate \<lparr>ySize = 4, xSize = 4, vals = map js_int [1, 0, 0, 0, 0, 1, 0, 0, 0, 0, 1, 0, 0, 0, 0, 1]\<rparr>
     = Inr \<lparr>ySize = 4, xSize = 4,
                 vals = [Finite False 1, Finite True 0, Finite False 0, Finite True 0,
                         Finite False 0, Finite True 1, Finite False 0, Finite True 0,
                         Finite False 0, Finite True 0, Finite False 1, Finite True 0,
                         Finite False 0, Finite True 0, Finite False 0, Finite True 1]\<rparr>"
  by (simp add: matrix_eval array_eval num_eval)

lemma adjugate_test_matrix:
  "adjugate \<lparr>ySize = 3, xSize = 3, vals = map js_int [1, 2, 3, 0, 1, 4, 5, 6, 0]\<rparr>
     = Inr \<lparr>ySize = 3, xSize = 3, vals = map js_int [- 24, 18, 5, 20, - 15, - 4, - 5, 4, 1]\<rparr>"
  by (simp add: matrix_eval array_eval num_eval)

text \<open>
  Claim C6. For every square matrix on which \<^verbatim>\<open>adjugate()\<close> succeeds (it does whenever
  the number of elements is an array length), the result is the matrix of the shape of
  the receiver whose values are, for the minors of the transposed matrix taken in
  row-major order, the determinant of the minor multiplied by \<open>(-1)\<close> raised to the
  index of the minor in that sequence. The sign is not the checkerboard sign of the row
  and the column: the adjugate of the identity of size four has the diagonal
  \<open>1, -1, 1, -1\<close>.
\<close>

theorem adjugate_flattened_index_sign:
  assumes "matrix_ok m" and "xSize m = ySize m"
  shows "(\<forall>r. adjugate m = Inr r \<longrightarrow> r = adjugate_spec m)
       \<and> (xSize m * ySize m < 2 ^ 32 \<longrightarrow> adjugate m = Inr (adjugate_spec m))
       \<and> adjugate \<lparr>ySize = 4, xSize = 4, vals = map js_int [1, 0, 0, 0, 0, 1, 0, 0, 0, 0, 1, 0, 0, 0, 0, 1]\<rparr>
           = Inr \<lparr>ySize = 4, xSize = 4,
                 vals = [Finite False 1, Finite True 0, Finite False 0, Finite True 0,
                         Finite False 0, Finite True 1, Finite False 0, Finite True 0,
                         Finite False 0, Finite True 0, Finite False 1, Finite True 0,
                         Finite False 0, Finite True 0, Finite False 0, Finite True 1]\<rparr>"
proof -
  have "adjugate m = Inr (adjugate_spec m)" if "xSize m * ySize m < 2 ^ 32"
    using assms that by (rule adjugate_ok)
  moreover have "adjugate m = Inl InvalidArrayLength" if "\<not> xSize m * ySize m < 2 ^ 32"
    using assms(1) that by (rule adjugate_range_error)
  ultimately show ?thesis
    using adjugate_identity_4 by (cases "xSize m * ySize m < 2 ^ 32") simp_all
qed

theorem adjugate_flattened_index_sign_witness:
  "matrix_ok \<lparr>ySize = 3, xSize = 3, vals = map js_int [1, 2, 3, 0, 1, 4, 5, 6, 0]\<rparr>
   \<and> xSize \<lparr>ySize = 3, xSize = 3, vals = map js_int [1, 2, 3, 0, 1, 4, 5, 6, 0]\<rparr>
       = ySize \<lparr>ySize = 3, xSize = 3, vals = map js_int [1, 2, 3, 0, 1, 4, 5, 6, 0]\<rparr>
   \<and> xSize \<lparr>ySize = 3, xSize = 3, vals = map js_int [1, 2, 3, 0, 1, 4, 5, 6, 0]\<rparr>
       * ySize \<lparr>ySize = 3, xSize = 3, vals = map js_int [1, 2, 3, 0, 1, 4, 5, 6, 0]\<rparr> < 2 ^ 32
   \<and> adjugate \<lparr>ySize = 3, xSize = 3, vals = map js_int [1, 2, 3, 0, 1, 4, 5, 6, 0]\<rparr>
       = Inr \<lparr>ySize = 3, xSize = 3, vals = map js_int [- 24, 18, 5, 20, - 15, - 4, - 5, 4, 1]\<rparr>
   \<and> adjugate_spec \<lparr>ySize = 3, xSize = 3, vals = map js_int [1, 2, 3, 0, 1, 4, 5, 6, 0]\<rparr>
       = \<lparr>ySize = 3, xSize = 3, vals = map js_int [- 24, 18, 5, 20, - 15, - 4, - 5, 4, 1]\<rparr>"
proof -
  have ok: "matrix_ok \<lparr>ySize = 3, xSize = 3, vals = map js_int [1, 2, 3, 0, 1, 4, 5, 6, 0]\<rparr>"
    by (simp add: matrix_ok_def is_float32_def num_eval)
  have sq: "xSize \<lparr>ySize = 3, xSize = 3, vals = map js_int [1, 2, 3, 0, 1, 4, 5, 6, 0]\<rparr>
      = ySize \<lparr>ySize = 3, xSize = 3, vals = map js_int [1, 2, 3, 0, 1, 4, 5, 6, 0]\<rparr>"
    by simp
  note th = adjugate_flattened_index_sign [OF ok sq]
  have "adjugate \<lparr>ySize = 3, xSize = 3, vals = map js_int [1, 2, 3, 0, 1, 4, 5, 6, 0]\<rparr>
      = Inr (adjugate_spec \<lparr>ySize = 3, xSize = 3, vals = map js_int [1, 2, 3, 0, 1, 4, 5, 6, 0]\<rparr>)"
    using th [THEN conjunct2, THEN conjunct1] by simp
  with adjugate_test_matrix ok show ?thesis by simp
qed

section \<open>The product of two matrices\<close>

lemma fold_update_distinct:
  assumes "distinct (map g ps)" and "\<forall>p\<in>set ps. g p < n" and "length r = n"
    and "\<forall>p\<in>set ps. \<forall>r. length r = n \<longrightarrow> f p r = r[g p := F p (r ! g p)]"
  shows "length (fold f ps r) = n
       \<and> (\<forall>p\<in>set ps. fold f ps r ! g p = F p (r ! g p))
       \<and> (\<forall>k. k \<notin> g ` set ps \<longrightarrow> fold f ps r ! k = r ! k)"
  using assms
proof (induction ps arbitrary: r)
  case Nil
  then show ?case by simp
next
  case (Cons a ps)
  let ?r = "r[g a := F a (r ! g a)]"
  have fa: "f a r = ?r" using Cons.prems(3,4) by simp
  have len: "length ?r = n" using Cons.prems(3) by simp
  have IH: "length (fold f ps ?r) = n
       \<and> (\<forall>p\<in>set ps. fold f ps ?r ! g p = F p (?r ! g p))
       \<and> (\<forall>k. k \<notin> g ` set ps \<longrightarrow> fold f ps ?r ! k = ?r ! k)"
    using Cons.prems len by (intro Cons.IH) simp_all
  have notin: "g a \<notin> g ` set ps" using Cons.prems(1) by simp
  have ga: "g a < length r" using Cons.prems(2,3) by simp
  have here: "fold f ps ?r ! g a = F a (r ! g a)"
    using IH notin ga by simp
  have there: "fold f ps ?r ! g p = F p (r ! g p)" if "p \<in> set ps" for p
  proof -
    from that notin have "g p \<noteq> g a" by (metis imageI)
    with IH that show ?thesis by simp
  qed
  have other: "fold f ps ?r ! k = r ! k" if "k \<notin> g ` set (a # ps)" for k
    using that IH by simp
  from IH here there other show ?case by (simp add: fa)
qed

lemma accumulate_loop:
  assumes "0 \<le> i" and "i < int (length r)"
  shows "fold (\<lambda>z r. array_set r i (Some (js_add (to_number (array_get r i)) (t z)))) zs r
       = r[nat i := fold (\<lambda>z w. Some (js_add (to_number w) (t z))) zs (r ! nat i)]"
  using assms(2)
proof (induction zs arbitrary: r)
  case Nil
  then show ?case by simp
next
  case (Cons z zs)
  let ?r = "array_set r i (Some (js_add (to_number (array_get r i)) (t z)))"
  have r': "?r = r[nat i := Some (js_add (to_number (r ! nat i)) (t z))]"
    using assms(1) Cons.prems by (simp add: array_set_def array_get_def)
  then have "i < int (length ?r)" using Cons.prems by simp
  then have "fold (\<lambda>z r. array_set r i (Some (js_add (to_number (array_get r i)) (t z)))) zs ?r
       = ?r[nat i := fold (\<lambda>z w. Some (js_add (to_number w) (t z))) zs (?r ! nat i)]"
    by (rule Cons.IH)
  then show ?case
    using assms(1) Cons.prems by (simp add: r')
qed

lemma accumulate_Some:
  "fold (\<lambda>z w. Some (js_add (to_number w) (t z))) zs (Some v) = Some (foldl js_add v (map t zs))"
  by (induction zs arbitrary: v) (simp_all add: to_number_def)

lemma multiply_loop:
  fixes t :: "int \<Rightarrow> int \<Rightarrow> int \<Rightarrow> jsnum" and zs :: "int list"
  assumes dims: "0 \<le> ya" "0 \<le> xb"
  defines "result \<equiv>
     fold (\<lambda>y result.
             fold (\<lambda>x result.
                     fold (\<lambda>z result.
                             array_set result (x + y * xb)
                               (Some (js_add (to_number (array_get result (x + y * xb)))
                                        (t y x z))))
                       zs result)
               [0..xb - 1] result)
       [0..ya - 1] (replicate (nat (ya * xb)) (Some js_zero))"
  shows "result
       = concat (map (\<lambda>y. map (\<lambda>x. Some (foldl js_add js_zero (map (t y x) zs))) [0..xb - 1])
                   [0..ya - 1])"
proof -
  define ps where "ps = List.product [0..ya - 1] [0..xb - 1]"
  define g where "g = (\<lambda>(y, x). nat (x + y * xb))"
  define F where "F = (\<lambda>(y, x). fold (\<lambda>z w. Some (js_add (to_number w) (t y x z))) zs)"
  define f where "f = (\<lambda>(y, x) result.
                         fold (\<lambda>z result.
                             array_set result (x + y * xb)
                               (Some (js_add (to_number (array_get result (x + y * xb)))
                                        (t y x z))))
                       zs result)"
  define n where "n = nat (ya * xb)"
  define r0 where "r0 = replicate n (Some js_zero)"
  have res: "result = fold f ps r0"
    unfolding result_def ps_def f_def r0_def n_def
    by (rule fold_product [THEN fun_cong])
  have rng: "0 \<le> x + y * xb \<and> x + y * xb < ya * xb"
    if "0 \<le> y" "y < ya" "0 \<le> x" "x < xb" for y x
    using product_index_in_range [OF that] by simp
  have "inj_on g (set ps)"
  proof (rule inj_onI)
    fix p q assume p: "p \<in> set ps" and q: "q \<in> set ps" and eq: "g p = g q"
    obtain y x where pp: "p = (y, x)" by (cases p)
    obtain y' x' where qq: "q = (y', x')" by (cases q)
    from p q pp qq have r: "0 \<le> y" "y < ya" "0 \<le> x" "x < xb" "0 \<le> y'" "y' < ya" "0 \<le> x'" "x' < xb"
      by (simp_all add: ps_def)
    from eq have "nat (x + y * xb) = nat (x' + y' * xb)"
      by (simp add: g_def pp qq)
    with rng [OF r(1-4)] rng [OF r(5-8)] have "x + y * xb = x' + y' * xb"
      by linarith
    from transpose_index_inj [OF r(3,4,7,8) this] show "p = q" by (simp add: pp qq)
  qed
  moreover have "distinct ps" unfolding ps_def by (simp add: distinct_product)
  ultimately have d: "distinct (map g ps)" by (simp add: distinct_map)
  have gn: "\<forall>p\<in>set ps. g p < n"
  proof
    fix p assume "p \<in> set ps"
    then obtain y x where p: "p = (y, x)" "0 \<le> y" "y < ya" "0 \<le> x" "x < xb"
      by (auto simp: ps_def)
    from rng [OF p(2-5)] show "g p < n" by (simp add: g_def p(1) n_def nat_less_iff)
  qed
  have upd: "\<forall>p\<in>set ps. \<forall>r. length r = n \<longrightarrow> f p r = r[g p := F p (r ! g p)]"
  proof (intro ballI allI impI)
    fix p and r :: "jsnum option list" assume "p \<in> set ps" and len: "length r = n"
    then obtain y x where p: "p = (y, x)" "0 \<le> y" "y < ya" "0 \<le> x" "x < xb"
      by (auto simp: ps_def)
    from rng [OF p(2-5)] have "0 \<le> x + y * xb" "x + y * xb < int (length r)"
      using dims by (simp_all add: len n_def)
    from accumulate_loop [OF this] show "f p r = r[g p := F p (r ! g p)]"
      by (simp add: f_def g_def F_def p(1))
  qed
  have r0n: "length r0 = n" by (simp add: r0_def)
  note facts = fold_update_distinct [OF d gn r0n upd, folded res]
  have len: "length result = nat ya * nat xb"
    using facts dims by (simp add: r0_def n_def nat_mult_distrib)
  let ?target = "concat (map (\<lambda>y. map (\<lambda>x. Some (foldl js_add js_zero (map (t y x) zs))) [0..xb - 1])
                   [0..ya - 1])"
  have tlen: "length ?target = nat ya * nat xb"
    by (subst length_concat_uniform [where n = "nat xb"]) (use dims in simp_all)
  show ?thesis
  proof (rule nth_equalityI)
    show "length result = length ?target" using len tlen by simp
  next
    fix k assume "k < length result"
    then have k: "k < nat ya * nat xb" using len by simp
    then have pos: "0 < xb" by (cases "xb = 0") (use dims in simp_all)
    define x where "x = int k mod xb"
    define y where "y = int k div xb"
    have x: "0 \<le> x" "x < xb" using pos by (simp_all add: x_def)
    have y0: "0 \<le> y" using pos by (simp add: y_def pos_imp_zdiv_nonneg_iff)
    have "int k < ya * xb" using k dims by (simp add: nat_mult_distrib [symmetric] nat_less_iff)
    moreover have yx: "y * xb + x = int k" by (simp add: x_def y_def)
    ultimately have "y * xb < ya * xb" using x by linarith
    then have y1: "y < ya" using pos by simp
    have gk: "g (y, x) = k" using yx by (simp add: g_def add.commute)
    have mem: "(y, x) \<in> set ps" using x y0 y1 by (simp add: ps_def)
    have "k < n" using gn mem gk by auto
    then have "r0 ! k = Some js_zero" by (simp add: r0_def)
    moreover from facts mem have "result ! g (y, x) = F (y, x) (r0 ! g (y, x))" by blast
    ultimately have "result ! k = Some (foldl js_add js_zero (map (t y x) zs))"
      by (simp add: gk F_def accumulate_Some)
    moreover have "k = nat y * nat xb + nat x"
      using yx x y0 by (simp add: nat_add_distrib [symmetric] nat_mult_distrib [symmetric])
    then have "?target ! k
        = map (\<lambda>x. Some (foldl js_add js_zero (map (t ([0..ya - 1] ! nat y) x) zs))) [0..xb - 1] ! nat x"
      using x y0 y1 by (simp only:) (rule nth_concat_uniform, simp_all)
    then have "?target ! k = Some (foldl js_add js_zero (map (t y x) zs))"
      using x y0 y1 by simp
    ultimately show "result ! k = ?target ! k" by simp
  qed
qed

section \<open>Multiplication by a number\<close>

lemma multiply_matrix_ok:
  assumes "0 \<le> ySize a" and "0 \<le> xSize b" and "ySize a * xSize b < 2 ^ 32"
  shows "multiply a (Matrix b) = Inr (multiply_spec a b)"
proof -
  have new: "new_Array (ySize a * xSize b) (Some js_zero)
      = Inr (replicate (nat (ySize a * xSize b)) (Some js_zero))"
    using assms by (simp add: new_Array_def)
  have len: "int (length (vals (multiply_spec a b))) = ySize a * xSize b"
    unfolding multiply_spec_def using assms(1,2)
    by (simp only: matrix.simps)
       (subst length_concat_uniform [where n = "nat (xSize b)"], simp_all add: nat_mult_distrib)
  have "multiply a (Matrix b)
      = construct (ySize a) (xSize b)
          (concat (map (\<lambda>y. map (\<lambda>x. Some (foldl js_add js_zero
                                           (map (\<lambda>z. js_mul (to_number (get a y z))
                                                        (to_number (get b z x)))
                                              [0..xSize a - 1])))
                                 [0..xSize b - 1])
                      [0..ySize a - 1]))"
    unfolding multiply_def
    by (simp add: new multiply_loop [OF assms(1,2)])
  also have "\<dots> = Inr (multiply_spec a b)"
    using len
    by (simp add: construct_def Let_def map_concat o_def to_number_def multiply_spec_def)
  finally show ?thesis .
qed

lemma length_identity_spec:
  "0 \<le> n \<Longrightarrow> length (vals (identity_spec n)) = nat n * nat n"
  unfolding identity_spec_def
  by (simp only: matrix.simps) (subst length_concat_uniform [where n = "nat n"], simp_all)

lemma nth_identity_spec:
  assumes "0 \<le> y" "y < n" "0 \<le> x" "x < n"
  shows "vals (identity_spec n) ! nat (y * n + x) = (if x = y then js_one else js_zero)"
proof -
  have "nat (y * n + x) = nat y * nat n + nat x"
    using assms by (simp add: nat_add_distrib nat_mult_distrib)
  moreover have "vals (identity_spec n) ! (nat y * nat n + nat x)
      = map (\<lambda>x. if x = [0..n - 1] ! nat y then js_one else js_zero) [0..n - 1] ! nat x"
    unfolding identity_spec_def
    by (simp only: matrix.simps) (rule nth_concat_uniform, use assms in simp_all)
  ultimately show ?thesis using assms by simp
qed

lemma identity_loop:
  assumes n: "0 \<le> n"
  defines "result \<equiv> fold (\<lambda>i vs. array_set vs (i * n + i) (Some js_one)) [0..n - 1]
                        (replicate (nat (n * n)) (Some js_zero))"
  shows "result = map Some (vals (identity_spec n))"
proof -
  define g where "g = (\<lambda>i. i * n + i)"
  define r0 where "r0 = replicate (nat (n * n)) (Some js_zero)"
  have res: "result = fold (\<lambda>i r. array_set r (g i) (Some js_one)) [0..n - 1] r0"
    by (simp add: result_def g_def r0_def)
  have "inj_on g (set [0..n - 1])"
  proof (rule inj_onI)
    fix i j assume "i \<in> set [0..n - 1]" "j \<in> set [0..n - 1]" "g i = g j"
    then have "i * (n + 1) = j * (n + 1)" and "0 < n + 1"
      by (simp_all add: g_def algebra_simps)
    then show "i = j" by simp
  qed
  then have d: "distinct (map g [0..n - 1])" by (simp add: distinct_map)
  have rng: "\<forall>p\<in>set [0..n - 1]. 0 \<le> g p \<and> g p < int (length r0)"
  proof
    fix i assume "i \<in> set [0..n - 1]"
    then have i: "0 \<le> i" "i < n" by simp_all
    from cell_index_in_range [OF i i] n show "0 \<le> g i \<and> g i < int (length r0)"
      by (simp add: g_def r0_def)
  qed
  note facts = fold_array_set_distinct [OF d rng, of "\<lambda>i. Some js_one", folded res]
  have len: "length result = nat n * nat n"
    using facts n by (simp add: r0_def nat_mult_distrib)
  show ?thesis
  proof (rule nth_equalityI)
    show "length result = length (map Some (vals (identity_spec n)))"
      using len length_identity_spec [OF n] by simp
  next
    fix k assume "k < length result"
    then have k: "k < nat n * nat n" using len by simp
    then have pos: "0 < n" by (cases "n = 0") (use n in simp_all)
    define x where "x = int k mod n"
    define y where "y = int k div n"
    have x: "0 \<le> x" "x < n" using pos by (simp_all add: x_def)
    have y0: "0 \<le> y" using pos by (simp add: y_def pos_imp_zdiv_nonneg_iff)
    have kn: "int k < n * n" using k n by (simp add: nat_mult_distrib [symmetric] nat_less_iff)
    moreover have yx: "y * n + x = int k" by (simp add: x_def y_def)
    ultimately have "y * n < n * n" using x by linarith
    then have y1: "y < n" using pos by simp
    have spec: "vals (identity_spec n) ! k = (if x = y then js_one else js_zero)"
      using nth_identity_spec [OF y0 y1 x] yx by simp
    have klen: "k < length (vals (identity_spec n))"
      using k length_identity_spec [OF n] by simp
    show "result ! k = map Some (vals (identity_spec n)) ! k"
    proof (cases "x = y")
      case True
      then have "g y = int k" using yx by (simp add: g_def)
      moreover have "y \<in> set [0..n - 1]" using y0 y1 by simp
      ultimately have "result ! k = Some js_one" using facts by (metis nat_int)
      with True spec klen show ?thesis by simp
    next
      case False
      have "int k \<notin> g ` set [0..n - 1]"
      proof
        assume "int k \<in> g ` set [0..n - 1]"
        then obtain i where i: "0 \<le> i" "i < n" "int k = i * n + i" by (auto simp: g_def)
        from transpose_index_inj [OF i(1,2) x, of i y] i(3) yx have "i = x \<and> i = y"
          by (simp add: add.commute)
        with False show False by simp
      qed
      with facts have "result ! k = r0 ! k" by blast
      also have "\<dots> = Some js_zero" using kn n by (simp add: r0_def nat_less_iff)
      finally show ?thesis using False spec klen by simp
    qed
  qed
qed

lemma fround_js_one [simp]: "fround js_one = js_one"
  by (simp add: js_one_def round_single_1)

lemma fround_js_zero [simp]: "fround js_zero = js_zero"
  by (simp add: js_zero_def)

lemma identity_ok:
  assumes "0 \<le> n" and "n * n < 2 ^ 32"
  shows "identity n = Inr (identity_spec n)"
proof -
  have new: "new_Array (n * n) (Some js_zero) = Inr (replicate (nat (n * n)) (Some js_zero))"
    using assms by (simp add: new_Array_def)
  have "map (\<lambda>a. fround (to_number a)) (map Some (vals (identity_spec n))) = vals (identity_spec n)"
    by (simp add: o_def to_number_def identity_spec_def map_concat if_distrib [of fround]
        cong: if_cong)
  moreover have "int (length (vals (identity_spec n))) = n * n"
    using length_identity_spec [OF assms(1)] assms(1) by simp
  ultimately show ?thesis
    unfolding identity_def new
    by (simp add: identity_loop [OF assms(1)] construct_def Let_def del: map_map)
       (simp add: identity_spec_def)
qed

lemma concat_grid_eqI:
  assumes len: "length xs = nat a * nat b" and dims: "0 \<le> a" "0 \<le> b"
    and cell: "\<And>y x. 0 \<le> y \<Longrightarrow> y < a \<Longrightarrow> 0 \<le> x \<Longrightarrow> x < b \<Longrightarrow> xs ! nat (y * b + x) = f y x"
  shows "xs = concat (map (\<lambda>y. map (\<lambda>x. f y x) [0..b - 1]) [0..a - 1])"
proof (rule nth_equalityI)
  show "length xs = length (concat (map (\<lambda>y. map (\<lambda>x. f y x) [0..b - 1]) [0..a - 1]))"
    by (subst length_concat_uniform [where n = "nat b"]) (use len dims in simp_all)
next
  fix k assume "k < length xs"
  then have k: "k < nat a * nat b" using len by simp
  then have pos: "0 < b" by (cases "b = 0") (use dims in simp_all)
  define x where "x = int k mod b"
  define y where "y = int k div b"
  have x: "0 \<le> x" "x < b" using pos by (simp_all add: x_def)
  have y0: "0 \<le> y" using pos by (simp add: y_def pos_imp_zdiv_nonneg_iff)
  have "int k < a * b" using k dims by (simp add: nat_mult_distrib [symmetric] nat_less_iff)
  moreover have yx: "y * b + x = int k" by (simp add: x_def y_def)
  ultimately have "y * b < a * b" using x by linarith
  then have y1: "y < a" using pos by simp
  have "k = nat y * nat b + nat x"
    using yx x y0 by (simp add: nat_add_distrib [symmetric] nat_mult_distrib [symmetric])
  then have "concat (map (\<lambda>y. map (\<lambda>x. f y x) [0..b - 1]) [0..a - 1]) ! k
      = map (\<lambda>x. f ([0..a - 1] ! nat y) x) [0..b - 1] ! nat x"
    using x y0 y1 by (simp only:) (rule nth_concat_uniform, simp_all)
  then have "concat (map (\<lambda>y. map (\<lambda>x. f y x) [0..b - 1]) [0..a - 1]) ! k = f y x"
    using x y0 y1 by simp
  with cell [OF y0 y1 x] yx show "xs ! k = concat (map (\<lambda>y. map (\<lambda>x. f y x) [0..b - 1]) [0..a - 1]) ! k"
    by simp
qed

lemma to_double_cases:
  obtains "to_double s q = Infinity s"
  | r where "to_double s q = Finite s r" "0 \<le> r" "round_mag 53 (- 1022) 1023 r = Some r"
proof (cases "round_mag 53 (- 1022) 1023 q")
  case None
  then show ?thesis using that(1) by (simp add: to_double_def)
next
  case (Some r)
  from round_mag_nonneg [OF Some] round_mag_idem [OF Some] Some show ?thesis
    using that(2) [of r] by (simp add: to_double_def)
qed

lemma to_double_fixed:
  "0 \<le> r \<Longrightarrow> round_mag 53 (- 1022) 1023 r = Some r \<Longrightarrow> to_double s r = Finite s r"
  by (simp add: to_double_def)

lemma js_add_zero_to_double:
  "js_add js_zero (to_double s q) = positive_zero (to_double s q)"
proof (cases rule: to_double_cases [of s q])
  case 1
  then show ?thesis by (simp add: js_zero_def positive_zero_def)
next
  case (2 r)
  then show ?thesis
    by (cases "r = 0") (auto simp: js_zero_def positive_zero_def signed_def to_double_fixed)
qed

lemma positive_zero_absorbs:
  "js_add (positive_zero (to_double s q)) (Finite t 0) = positive_zero (to_double s q)"
proof (cases rule: to_double_cases [of s q])
  case 1
  then show ?thesis by (simp add: js_zero_def positive_zero_def)
next
  case (2 r)
  then show ?thesis
    by (cases "r = 0") (auto simp: js_zero_def positive_zero_def signed_def to_double_fixed)
qed

lemma js_zero_absorbs: "js_add js_zero (Finite t 0) = js_zero"
  by (simp add: js_zero_def signed_def)

lemma foldl_add_zeros:
  assumes "\<And>t. js_add acc (Finite t 0) = acc" and "\<forall>z\<in>set zs. \<exists>t. f z = Finite t 0"
  shows "foldl js_add acc (map f zs) = acc"
  using assms(2)
proof (induction zs)
  case Nil
  then show ?case by simp
next
  case (Cons z zs)
  then obtain t where "f z = Finite t 0" by auto
  with Cons assms(1) show ?case by simp
qed

lemma sum_single_term:
  assumes x: "0 \<le> x" "x < n"
    and fx: "f x = to_double s q"
    and zeros: "\<And>z. 0 \<le> z \<Longrightarrow> z < n \<Longrightarrow> z \<noteq> x \<Longrightarrow> \<exists>t. f z = Finite t 0"
  shows "foldl js_add js_zero (map f [0..n - 1]) = positive_zero (f x)"
proof -
  have split: "[0..n - 1] = [0..x - 1] @ x # [x + 1..n - 1]"
    using x by (intro upto_split3) simp_all
  have pre: "foldl js_add js_zero (map f [0..x - 1]) = js_zero"
    by (rule foldl_add_zeros) (use zeros x in \<open>auto simp: js_zero_absorbs\<close>)
  have post: "foldl js_add (positive_zero (f x)) (map f [x + 1..n - 1]) = positive_zero (f x)"
    by (rule foldl_add_zeros) (use zeros x in \<open>auto simp: fx positive_zero_absorbs\<close>)
  show ?thesis
    by (simp add: split pre fx js_add_zero_to_double post [unfolded fx])
qed

lemma scaled_identity_ok:
  assumes "0 \<le> n" and "n * n < 2 ^ 32"
  shows "(case identity n of Inl e \<Rightarrow> Inl e | Inr i \<Rightarrow> map_m i (\<lambda>x. js_mul x s))
       = Inr (scaled_identity n s)"
proof -
  have "int (length (vals (identity_spec n))) = n * n"
    using length_identity_spec [OF assms(1)] assms(1) by simp
  moreover have "ySize (identity_spec n) = n" "xSize (identity_spec n) = n"
    by (simp_all add: identity_spec_def)
  ultimately show ?thesis
    by (simp add: identity_ok [OF assms] map_m_def construct_def Let_def o_def to_number_def
        scaled_identity_def)
qed

lemma get_scaled_identity:
  assumes "0 \<le> z" "z < n" "0 \<le> x" "x < n"
  shows "get (scaled_identity n s) z x
       = Some (fround (js_mul (if x = z then js_one else js_zero) s))"
proof -
  have n: "0 \<le> n" using assms by simp
  have "z * n + x < n * n" "0 \<le> z * n + x" using cell_index_in_range [OF assms] by simp_all
  then have "nat (z * n + x) < length (vals (identity_spec n))"
    using length_identity_spec [OF n] n by (simp add: nat_less_iff nat_mult_distrib [symmetric])
  then show ?thesis
    using nth_identity_spec [OF assms] \<open>0 \<le> z * n + x\<close>
    by (simp add: get_def typed_get_def scaled_identity_def nat_less_iff)
qed

lemma multiply_number_product:
  assumes "0 \<le> xSize m" and "xSize m * xSize m < 2 ^ 32"
  shows "multiply m (Number s) = multiply m (Matrix (scaled_identity (xSize m) s))"
  unfolding multiply_def by (simp add: scaled_identity_ok [OF assms])

lemma is_finite_cases:
  assumes "is_finite v" obtains s q where "v = Finite s q"
  using assms by (cases v) (simp_all add: is_finite_def)

lemma multiply_number_ok:
  assumes ok: "matrix_ok m" and fin: "list_all is_finite (vals m)"
    and dbl: "is_double s" and fs: "is_finite (fround s)"
    and small: "xSize m * xSize m < 2 ^ 32" "ySize m * xSize m < 2 ^ 32"
  shows "multiply m (Number s)
       = Inr \<lparr>ySize = ySize m, xSize = xSize m,
               vals = map (\<lambda>v. fround (positive_zero (js_mul v (fround s)))) (vals m)\<rparr>"
proof -
  define n where "n = xSize m"
  define b where "b = scaled_identity n s"
  have dims: "0 \<le> ySize m" "0 \<le> n" and len: "int (length (vals m)) = ySize m * n"
    using ok by (simp_all add: matrix_ok_def n_def)
  from fs obtain ss q where s: "s = Finite ss q" by (cases s) (simp_all add: is_finite_def)
  from fs obtain q' where fr: "fround s = Finite ss q'"
    by (auto simp: s is_finite_def split: option.splits)
  from dbl have q: "round_mag 53 (- 1022) 1023 q = Some q" by (simp add: is_double_def s)
  have one: "js_mul js_one s = s" by (simp add: js_one_def s to_double_def q)
  have zero: "fround (js_mul js_zero s) = Finite ss 0" by (simp add: js_zero_def s)
  have xb: "xSize b = n" by (simp add: b_def scaled_identity_def)
  have "multiply m (Number s) = multiply m (Matrix b)"
    unfolding b_def n_def using dims(2) small(1) by (intro multiply_number_product) (simp_all add: n_def)
  also have "\<dots> = Inr (multiply_spec m b)"
    using dims small(2) by (intro multiply_matrix_ok) (simp_all add: xb n_def)
  also have "multiply_spec m b
      = \<lparr>ySize = ySize m, xSize = xSize m,
         vals = map (\<lambda>v. fround (positive_zero (js_mul v (fround s)))) (vals m)\<rparr>"
  proof -
    have "map (\<lambda>v. fround (positive_zero (js_mul v (fround s)))) (vals m)
        = concat (map (\<lambda>y. map (\<lambda>x. fround (foldl js_add js_zero
                                           (map (\<lambda>z. js_mul (to_number (get m y z))
                                                        (to_number (get b z x)))
                                              [0..n - 1])))
                                 [0..n - 1])
                      [0..ySize m - 1])"
    proof (rule concat_grid_eqI)
      show "length (map (\<lambda>v. fround (positive_zero (js_mul v (fround s)))) (vals m))
          = nat (ySize m) * nat n"
        using len dims by (simp add: nat_mult_distrib [symmetric])
      show "0 \<le> ySize m" "0 \<le> n" by (fact dims)+
    next
      fix y x assume r: "0 \<le> y" "y < ySize m" "0 \<le> x" "x < n"
      define f where "f = (\<lambda>z. js_mul (to_number (get m y z)) (to_number (get b z x)))"
      have elem: "\<exists>sv qv. to_number (get m y z) = Finite sv qv" if z: "0 \<le> z" "z < n" for z
      proof -
        have i: "nat (y * xSize m + z) < length (vals m)"
          using ok r(1,2) z by (intro cell_nat_less) (simp_all add: n_def)
        then have "is_finite (vals m ! nat (y * xSize m + z))"
          using fin by (simp add: list_all_length)
        moreover have "get m y z = Some (vals m ! nat (y * xSize m + z))"
          unfolding get_def using ok r(1,2) z by (intro typed_get_ok) (simp_all add: n_def)
        ultimately show ?thesis by (auto simp: to_number_def elim: is_finite_cases)
      qed
      have i: "nat (y * n + x) < length (vals m)"
        using ok r by (simp add: n_def cell_nat_less)
      have gm: "get m y x = Some (vals m ! nat (y * n + x))"
        unfolding get_def n_def using ok r by (intro typed_get_ok) (simp_all add: n_def)
      from elem [OF r(3,4)] obtain sv qv where v: "vals m ! nat (y * n + x) = Finite sv qv"
        by (auto simp: gm to_number_def)
      have fx: "f x = js_mul (vals m ! nat (y * n + x)) (fround s)"
        using get_scaled_identity [OF r(3,4) r(3,4), of s]
        by (simp add: f_def gm b_def to_number_def one)
      then have fx': "f x = to_double (sv \<noteq> ss) (qv * q')" by (simp add: v fr)
      have zeros: "\<exists>t. f z = Finite t 0" if z: "0 \<le> z" "z < n" "z \<noteq> x" for z
      proof -
        from elem [OF z(1,2)] obtain sz qz where "to_number (get m y z) = Finite sz qz" by auto
        moreover have "to_number (get b z x) = Finite ss 0"
          using get_scaled_identity [OF z(1,2) r(3,4), of s] z(3)
          by (simp add: b_def to_number_def zero)
        ultimately show ?thesis by (simp add: f_def)
      qed
      have sum: "foldl js_add js_zero (map f [0..n - 1]) = positive_zero (f x)"
        using r(3,4) fx' zeros by (rule sum_single_term)
      note sum' = sum [unfolded fx, unfolded f_def]
      show "map (\<lambda>v. fround (positive_zero (js_mul v (fround s)))) (vals m) ! nat (y * n + x)
          = fround (foldl js_add js_zero
                      (map (\<lambda>z. js_mul (to_number (get m y z)) (to_number (get b z x))) [0..n - 1]))"
        using i by (simp add: sum')
    qed
    then show ?thesis
      by (simp add: multiply_spec_def xb) (simp add: n_def)
  qed
  finally show ?thesis .
qed

lemma round_mag_overflow:
  assumes "2 powi (emax + 1) \<le> \<bar>q\<bar>" and "0 < p" and "emin \<le> emax"
  shows "round_mag p emin emax q = None"
proof -
  define a where "a = \<bar>q\<bar>"
  define e where "e = max (ilog2 a) emin"
  define u :: rat where "u = 2 powi (e - int p + 1)"
  have a0: "0 < a" using assms(1) unfolding a_def
    by (rule less_le_trans [rotated]) simp
  have u0: "0 < u" by (simp add: u_def)
  have "(2::rat) powi (emax + 1) < 2 powi (ilog2 a + 1)"
    using assms(1) ilog2_upper [OF a0] by (simp add: a_def)
  then have "emax + 1 < ilog2 a + 1" by (rule power_int_2_less_cancel)
  then have ee: "emax + 1 \<le> e" by (simp add: e_def)
  have "e = ilog2 a \<or> ilog2 a \<le> e" by (simp add: e_def)
  have le: "2 powi e \<le> a"
  proof -
    have "e = ilog2 a" using \<open>emax + 1 < ilog2 a + 1\<close> assms(3)
      by (simp add: e_def)
    then show ?thesis using ilog2_lower [OF a0] by simp
  qed
  have "(2::rat) powi e = 2 powi (int (p - 1)) * u"
    unfolding u_def pow2_add using assms(2) by (simp add: of_nat_diff)
  then have "of_int (2 ^ (p - 1)) \<le> a / u"
    using le u0 by (simp add: field_simps)
  then have "2 ^ (p - 1) \<le> round_half_even (a / u)" by (rule round_half_even_ge)
  then have "(of_int (2 ^ (p - 1)) :: rat) \<le> of_int (round_half_even (a / u))"
    by (simp only: of_int_le_iff)
  then have "of_int (2 ^ (p - 1)) * u \<le> of_int (round_half_even (a / u)) * u"
    using u0 by simp
  moreover have "of_int (2 ^ (p - 1)) * u = 2 powi e"
    using \<open>(2::rat) powi e = 2 powi (int (p - 1)) * u\<close> by simp
  moreover have "(2::rat) powi (emax + 1) \<le> 2 powi e"
    by (rule power_int_increasing) (use ee in simp_all)
  ultimately have "2 powi (emax + 1) \<le> of_int (round_half_even (a / u)) * u" by simp
  moreover have "q \<noteq> 0" using a0 by (simp add: a_def)
  ultimately show ?thesis
    by (simp add: round_mag_def Let_def a_def [symmetric] e_def [symmetric] u_def [symmetric])
qed

lemma round_single_pow128:
  "round_mag 24 (- 126) 127 340282366920938463463374607431768211456 = None"
  by (rule round_mag_overflow) simp_all

lemma round_double_pow128:
  "round_mag 53 (- 1022) 1023 340282366920938463463374607431768211456
     = Some 340282366920938463463374607431768211456"
  using round_mag_exact [of 1 53 "- 1022" 128 1023] by simp

lemma strict_eq_fround_positive_zero:
  "js_strict_eq (fround (positive_zero (to_double s q))) (fround (to_double s q))"
proof (cases rule: to_double_cases [of s q])
  case 1
  then show ?thesis by (simp add: positive_zero_def js_zero_def)
next
  case (2 r)
  then show ?thesis
    by (cases "r = 0") (auto simp: positive_zero_def js_zero_def split: option.splits)
qed

lemma eq_scale_spec:
  assumes fin: "list_all is_finite (vals m)" and fs: "is_finite (fround s)"
  shows "eq \<lparr>ySize = ySize m, xSize = xSize m,
             vals = map (\<lambda>v. fround (positive_zero (js_mul v (fround s)))) (vals m)\<rparr>
           (scale_spec m s)"
proof -
  from fs obtain ss q' where fr: "fround s = Finite ss q'"
    by (cases "fround s") (simp_all add: is_finite_def)
  have "js_strict_eq (fround (positive_zero (js_mul (vals m ! nat i) (fround s))))
          (fround (js_mul (vals m ! nat i) (fround s)))"
    if "0 \<le> i" "i < int (length (vals m))" for i
  proof -
    from that fin have "is_finite (vals m ! nat i)" by (simp add: list_all_length)
    then obtain sv qv where "vals m ! nat i = Finite sv qv" by (rule is_finite_cases)
    then show ?thesis by (simp add: fr strict_eq_fround_positive_zero)
  qed
  then show ?thesis
    by (auto simp: eq_def scale_spec_def typed_get_def list_all_iff)
qed

text \<open>
  Claim C10 says that \<^verbatim>\<open>m.multiply(s)\<close> scales every element of \<open>m\<close> by \<open>s\<close>, for
  every matrix and every number. The scaled identity is held in single precision: the
  number \<open>2 ^ 128\<close> is stored as \<^verbatim>\<open>Infinity\<close>, and the product of the element 0 with it
  is NaN, where the element scaled by \<open>2 ^ 128\<close> is 0. With the scalar \<^verbatim>\<open>Infinity\<close> the
  zeros of the identity become NaN, and so does every element of the product.
\<close>

theorem multiply_scalar_counterexample:
  "is_double (Finite False 340282366920938463463374607431768211456)
   \<and> multiply \<lparr>ySize = 1, xSize = 1, vals = [js_int 0]\<rparr> (Number (Finite False 340282366920938463463374607431768211456))
       = Inr \<lparr>ySize = 1, xSize = 1, vals = [NaN]\<rparr>
   \<and> js_mul (js_int 0) (Finite False 340282366920938463463374607431768211456) = Finite False 0
   \<and> multiply \<lparr>ySize = 1, xSize = 2, vals = [js_int 1, js_int 1]\<rparr> (Number (Infinity False))
       = Inr \<lparr>ySize = 1, xSize = 2, vals = [NaN, NaN]\<rparr>
   \<and> js_mul (js_int 1) (Infinity False) = Infinity False"
  by (simp add: is_double_def matrix_eval array_eval num_eval round_single_pow128
      round_double_pow128)

text \<open>
  Claim C10, amended. For every matrix \<open>m\<close> whose elements are finite and every number
  \<open>s\<close> whose single-precision value \<open>fround s\<close> is finite (the numbers of elements of
  \<open>m\<close> and of the identity being array lengths), \<^verbatim>\<open>m.multiply(s)\<close> returns a matrix
  with the dimensions of \<open>m\<close> whose elements are those of \<open>m\<close> multiplied by \<open>fround s\<close> and
  stored in single precision, a zero product being stored as the positive zero; under the
  equality of the library it is the matrix of the elements of \<open>m\<close> scaled by \<open>fround s\<close>.
  It is computed as, and equals, the product of \<open>m\<close> with \<^verbatim>\<open>identity(xSize)\<close> scaled by
  \<open>s\<close>.
\<close>

theorem multiply_scalar:
  assumes "matrix_ok m" and "list_all is_finite (vals m)"
    and "is_double s" and "is_finite (fround s)"
    and "xSize m * xSize m < 2 ^ 32" and "ySize m * xSize m < 2 ^ 32"
  shows "multiply m (Number s)
           = Inr \<lparr>ySize = ySize m, xSize = xSize m,
                   vals = map (\<lambda>v. fround (positive_zero (js_mul v (fround s)))) (vals m)\<rparr>
       \<and> eq \<lparr>ySize = ySize m, xSize = xSize m,
               vals = map (\<lambda>v. fround (positive_zero (js_mul v (fround s)))) (vals m)\<rparr>
            (scale_spec m s)
       \<and> identity (xSize m) = Inr (identity_spec (xSize m))
       \<and> map_m (identity_spec (xSize m)) (\<lambda>x. js_mul x s) = Inr (scaled_identity (xSize m) s)
       \<and> multiply m (Number s) = multiply m (Matrix (scaled_identity (xSize m) s))"
proof -
  have n: "0 \<le> xSize m" using assms(1) by (simp add: matrix_ok_def)
  have i: "identity (xSize m) = Inr (identity_spec (xSize m))"
    using n assms(5) by (rule identity_ok)
  have "map_m (identity_spec (xSize m)) (\<lambda>x. js_mul x s) = Inr (scaled_identity (xSize m) s)"
    using scaled_identity_ok [OF n assms(5), of s] by (simp add: i)
  with i multiply_number_ok [OF assms] eq_scale_spec [OF assms(2,4)]
    multiply_number_product [OF n assms(5), of s]
  show ?thesis by simp
qed

theorem multiply_scalar_witness:
  "matrix_ok \<lparr>ySize = 3, xSize = 2, vals = map js_int [1, 2, 3, 4, 5, 6]\<rparr>
   \<and> list_all is_finite (vals \<lparr>ySize = 3, xSize = 2, vals = map js_int [1, 2, 3, 4, 5, 6]\<rparr>)
   \<and> is_double (js_int 2) \<and> is_finite (fround (js_int 2))
   \<and> xSize \<lparr>ySize = 3, xSize = 2, vals = map js_int [1, 2, 3, 4, 5, 6]\<rparr>
       * xSize \<lparr>ySize = 3, xSize = 2, vals = map js_int [1, 2, 3, 4, 5, 6]\<rparr> < 2 ^ 32
   \<and> ySize \<lparr>ySize = 3, xSize = 2, vals = map js_int [1, 2, 3, 4, 5, 6]\<rparr>
       * xSize \<lparr>ySize = 3, xSize = 2, vals = map js_int [1, 2, 3, 4, 5, 6]\<rparr> < 2 ^ 32
   \<and> multiply \<lparr>ySize = 3, xSize = 2, vals = map js_int [1, 2, 3, 4, 5, 6]\<rparr> (Number (js_int 2))
       = Inr \<lparr>ySize = 3, xSize = 2, vals = map js_int [2, 4, 6, 8, 10, 12]\<rparr>"
proof -
  have ok: "matrix_ok \<lparr>ySize = 3, xSize = 2, vals = map js_int [1, 2, 3, 4, 5, 6]\<rparr>"
    by (simp add: matrix_ok_def is_float32_def num_eval)
  have fin: "list_all is_finite (vals \<lparr>ySize = 3, xSize = 2, vals = map js_int [1, 2, 3, 4, 5, 6]\<rparr>)"
    by (simp add: is_finite_def js_int_def)
  have dbl: "is_double (js_int 2)" by (simp add: is_double_def num_eval)
  have fs: "is_finite (fround (js_int 2))" by (simp add: is_finite_def num_eval)
  have "multiply \<lparr>ySize = 3, xSize = 2, vals = map js_int [1, 2, 3, 4, 5, 6]\<rparr> (Number (js_int 2))
      = Inr \<lparr>ySize = 3, xSize = 2,
              vals = map (\<lambda>v. fround (positive_zero (js_mul v (fround (js_int 2)))))
                       (map js_int [1, 2, 3, 4, 5, 6])\<rparr>"
    using multiply_scalar [OF ok fin dbl fs] by simp
  also have "map (\<lambda>v. fround (positive_zero (js_mul v (fround (js_int 2)))))
                       (map js_int [1, 2, 3, 4, 5, 6]) = map js_int [2, 4, 6, 8, 10, 12]"
    by (simp add: positive_zero_def num_eval)
  finally show ?thesis using ok fin dbl fs by simp
qed

section \<open>The inverse\<close>

lemma inverse_2x2_example:
  "inverse_m \<lparr>ySize = 2, xSize = 2, vals = map js_int [1, 2, 3, 4]\<rparr>
     = Inr \<lparr>ySize = 2, xSize = 2,
               vals = [Finite True 0, Finite False 0, Finite True 0, Finite False 0]\<rparr>"
  by (simp add: matrix_eval array_eval num_eval)





subsection \<open>Integers held exactly\<close>

lemma to_double_abs_int:
  "\<bar>i\<bar> < 2 ^ 53 \<Longrightarrow> to_double s (of_int \<bar>i\<bar>) = Finite s (of_int \<bar>i\<bar>)"
  by (rule to_double_of_int) simp_all

lemma int_val_mul:
  assumes "int_val v i k" and "int_val w j l" and "k * l < 2 ^ 53"
  shows "int_val (js_mul v w) (i * j) (k * l)"
proof -
  from assms(1) obtain s where v: "v = Finite s (of_int \<bar>i\<bar>)" "i \<noteq> 0 \<longrightarrow> s = (i < 0)" "\<bar>i\<bar> \<le> k"
    by (auto simp: int_val_def)
  from assms(2) obtain t where w: "w = Finite t (of_int \<bar>j\<bar>)" "j \<noteq> 0 \<longrightarrow> t = (j < 0)" "\<bar>j\<bar> \<le> l"
    by (auto simp: int_val_def)
  have b: "\<bar>i * j\<bar> \<le> k * l"
    unfolding abs_mult using v(3) w(3) by (intro mult_mono) simp_all
  then have "js_mul v w = Finite (s \<noteq> t) (of_int \<bar>i * j\<bar>)"
    using assms(3) to_double_abs_int [of "i * j" "s \<noteq> t"] by (simp add: v(1) w(1) abs_mult)
  moreover have "i * j \<noteq> 0 \<longrightarrow> (s \<noteq> t) = (i * j < 0)"
    using v(2) w(2) by (auto simp: mult_less_0_iff)
  ultimately show ?thesis using b by (auto simp: int_val_def)
qed

lemma int_val_add:
  assumes "int_val v i k" and "int_val w j l" and "k + l < 2 ^ 53"
  shows "int_val (js_add v w) (i + j) (k + l)"
proof -
  from assms(1) obtain s where v: "v = Finite s (of_int \<bar>i\<bar>)" "i \<noteq> 0 \<longrightarrow> s = (i < 0)" "\<bar>i\<bar> \<le> k"
    by (auto simp: int_val_def)
  from assms(2) obtain t where w: "w = Finite t (of_int \<bar>j\<bar>)" "j \<noteq> 0 \<longrightarrow> t = (j < 0)" "\<bar>j\<bar> \<le> l"
    by (auto simp: int_val_def)
  have si: "signed s \<bar>of_int i :: rat\<bar> = of_int i" using v(2) by (auto simp: signed_def)
  have sj: "signed t \<bar>of_int j :: rat\<bar> = of_int j" using w(2) by (auto simp: signed_def)
  have b: "\<bar>i + j\<bar> \<le> k + l" using v(3) w(3) by simp
  have sum: "signed s \<bar>of_int i :: rat\<bar> + signed t \<bar>of_int j :: rat\<bar> = of_int (i + j)"
    by (simp add: si sj)
  show ?thesis
  proof (cases "i + j = 0")
    case True
    then show ?thesis using b by (simp add: int_val_def v(1) w(1) sum Let_def del: of_int_add)
  next
    case False
    have "\<bar>(of_int (i + j) :: rat)\<bar> = of_int \<bar>i + j\<bar>" by simp
    moreover have "((of_int (i + j) :: rat) < 0) = (i + j < 0)" by (simp only: of_int_less_0_iff)
    moreover have "to_double (i + j < 0) (of_int \<bar>i + j\<bar>) = Finite (i + j < 0) (of_int \<bar>i + j\<bar>)"
      using b assms(3) by (intro to_double_abs_int) simp
    ultimately have "js_add v w = Finite (i + j < 0) (of_int \<bar>i + j\<bar>)"
      using False by (simp add: v(1) w(1) sum Let_def del: of_int_add)
    then show ?thesis using b by (simp add: int_val_def)
  qed
qed

lemma int_val_neg: "int_val v i k \<Longrightarrow> int_val (js_neg v) (- i) k"
  by (auto simp: int_val_def)

lemma int_val_sub:
  assumes "int_val v i k" and "int_val w j l" and "k + l < 2 ^ 53"
  shows "int_val (js_sub v w) (i - j) (k + l)"
  using int_val_add [OF assms(1) int_val_neg [OF assms(2)] assms(3)] by (simp add: js_sub_def)

lemma int_val_fround:
  assumes "int_val v i k" and "k < 2 ^ 24"
  shows "int_val (fround v) i k"
proof -
  from assms(1) obtain s where v: "v = Finite s (of_int \<bar>i\<bar>)" "i \<noteq> 0 \<longrightarrow> s = (i < 0)" "\<bar>i\<bar> \<le> k"
    by (auto simp: int_val_def)
  have "fround (Finite s (of_int \<bar>i\<bar>)) = Finite s (of_int \<bar>i\<bar>)"
    using v(3) assms(2) by (intro fround_of_int) simp_all
  then show ?thesis using assms(1) by (simp add: v(1))
qed

lemma int_val_pow: "int_val (pow_neg1 n) (if odd n then - 1 else 1) 1"
  by (auto simp: int_val_def pow_neg1_def intro: exI [of _ False])

lemma int_val_zero: "int_val js_zero 0 0"
  by (auto simp: int_val_def js_zero_def)

lemma int_val_js_int: "\<bar>a\<bar> \<le> k \<Longrightarrow> int_val (js_int a) a k"
  by (auto simp: int_val_def js_int_def)

lemma int_val_div_unit:
  assumes "int_val v i k" and "int_val w j 1" and "j \<noteq> 0" and "k < 2 ^ 53"
  shows "int_val (js_div v w) (i * j) k"
proof -
  from assms(1) obtain s where v: "v = Finite s (of_int \<bar>i\<bar>)" "i \<noteq> 0 \<longrightarrow> s = (i < 0)" "\<bar>i\<bar> \<le> k"
    by (auto simp: int_val_def)
  from assms(2) obtain t where w: "w = Finite t (of_int \<bar>j\<bar>)" "j \<noteq> 0 \<longrightarrow> t = (j < 0)" "\<bar>j\<bar> \<le> 1"
    by (auto simp: int_val_def)
  have j1: "\<bar>j\<bar> = 1" using w(3) assms(3) by simp
  have "js_div v w = Finite (s \<noteq> t) (of_int \<bar>i\<bar>)"
    using v(3) assms(4) to_double_abs_int [of i "s \<noteq> t"] by (simp add: v(1) w(1) j1)
  moreover have "\<bar>i * j\<bar> = \<bar>i\<bar>" by (simp add: abs_mult j1)
  moreover have "i * j \<noteq> 0 \<longrightarrow> (s \<noteq> t) = (i * j < 0)"
    using v(2) w(2) assms(3) by (auto simp: mult_less_0_iff)
  ultimately show ?thesis using v(3) by (auto simp: int_val_def)
qed

lemma int_val_weaken: "int_val v i k \<Longrightarrow> i = j \<Longrightarrow> k \<le> l \<Longrightarrow> int_val v j l"
  by (auto simp: int_val_def)

lemma int_val_strict_eq:
  "int_val v i k \<Longrightarrow> int_val w j l \<Longrightarrow> js_strict_eq v w = (i = j)"
  by (auto simp: int_val_def)

lemma int_val_tighten: "int_val v i k \<Longrightarrow> \<bar>i\<bar> \<le> l \<Longrightarrow> int_val v i l"
  by (auto simp: int_val_def)

lemmas int_val_intros = int_val_mul int_val_add int_val_sub int_val_fround int_val_pow
  int_val_zero int_val_js_int

subsection \<open>The three by three case\<close>

lemma determinant_spec_2:
  "xSize m = 2 \<Longrightarrow> determinant_spec m
     = js_sub (js_mul (vals m ! 0) (vals m ! 3)) (js_mul (vals m ! 1) (vals m ! 2))"
  by (subst determinant_spec.simps) simp

lemma determinant_spec_n:
  "xSize m \<noteq> 2 \<Longrightarrow> determinant_spec m
     = foldl js_add js_zero
          (map (\<lambda>x. js_mul (js_mul (vals m ! nat x) (determinant_spec (minor_spec m 0 x)))
                       (pow_neg1 x))
             [0..xSize m - 1])"
  by (subst determinant_spec.simps) simp

lemma determinant_spec_3x3:
  assumes "ySize m = 3" "xSize m = 3" "vals m = [A, B, C, D, E, F, G, H, I]"
  shows "determinant_spec m
       = js_add
           (js_add
             (js_add js_zero
               (js_mul (js_mul A (js_sub (js_mul E I) (js_mul F H))) (pow_neg1 0)))
             (js_mul (js_mul B (js_sub (js_mul D I) (js_mul F G))) (pow_neg1 1)))
           (js_mul (js_mul C (js_sub (js_mul D H) (js_mul E G))) (pow_neg1 2))"
  using assms
  by (simp add: determinant_spec_n determinant_spec_2 minor_spec_def upto_rec1)

lemma adjugate_spec_3x3:
  assumes "ySize m = 3" "xSize m = 3" "vals m = [A, B, C, D, E, F, G, H, I]"
  shows "adjugate_spec m
       = \<lparr>ySize = 3, xSize = 3,
          vals =
            [fround (js_mul (js_sub (js_mul E I) (js_mul H F)) (pow_neg1 0)),
             fround (js_mul (js_sub (js_mul B I) (js_mul H C)) (pow_neg1 1)),
             fround (js_mul (js_sub (js_mul B F) (js_mul E C)) (pow_neg1 2)),
             fround (js_mul (js_sub (js_mul D I) (js_mul G F)) (pow_neg1 3)),
             fround (js_mul (js_sub (js_mul A I) (js_mul G C)) (pow_neg1 4)),
             fround (js_mul (js_sub (js_mul A F) (js_mul D C)) (pow_neg1 5)),
             fround (js_mul (js_sub (js_mul D H) (js_mul G E)) (pow_neg1 6)),
             fround (js_mul (js_sub (js_mul A H) (js_mul G B)) (pow_neg1 7)),
             fround (js_mul (js_sub (js_mul A E) (js_mul D B)) (pow_neg1 8))]\<rparr>"
  using assms
  by (simp add: adjugate_spec_def transpose_spec_def minors_spec_def determinant_spec_2
      minor_spec_def upto_rec1 upt_rec Let_def)

lemma int_val_determinant_3x3:
  assumes A: "int_val A a 2048" and B: "int_val B b 2048" and C: "int_val C c 2048"
    and D: "int_val D d 2048" and E: "int_val E e 2048" and F: "int_val F f 2048"
    and G: "int_val G g 2048" and H: "int_val H h 2048" and I: "int_val I i 2048"
  shows "int_val
           (js_add
             (js_add
               (js_add js_zero
                 (js_mul (js_mul A (js_sub (js_mul E I) (js_mul F H))) (pow_neg1 0)))
               (js_mul (js_mul B (js_sub (js_mul D I) (js_mul F G))) (pow_neg1 1)))
             (js_mul (js_mul C (js_sub (js_mul D H) (js_mul E G))) (pow_neg1 2)))
           (a * (e * i - f * h) - b * (d * i - f * g) + c * (d * h - e * g))
           51539607552"
  apply (rule int_val_weaken)
    apply ((rule assms int_val_pow int_val_zero int_val_mul int_val_add int_val_sub | simp)+)[1]
   apply (simp add: algebra_simps)
  apply simp
  done

lemma int_val_retarget: "int_val v i k \<Longrightarrow> i = j \<Longrightarrow> \<bar>j\<bar> \<le> l \<Longrightarrow> int_val v j l"
  by (auto simp: int_val_def)

lemma round_trip_entries:
  assumes A: "int_val A a 2048" and B: "int_val B b 2048" and C: "int_val C c 2048"
    and D: "int_val D d 2048" and E: "int_val E e 2048" and F: "int_val F f 2048"
    and G: "int_val G g 2048" and H: "int_val H h 2048" and I: "int_val I i 2048"
    and unit: "a * (e * i - f * h) - b * (d * i - f * g) + c * (d * h - e * g) = 1
             \<or> a * (e * i - f * h) - b * (d * i - f * g) + c * (d * h - e * g) = - 1"
    and dv_def: "dv = js_add
           (js_add
             (js_add js_zero
               (js_mul (js_mul A (js_sub (js_mul E I) (js_mul F H))) (pow_neg1 0)))
             (js_mul (js_mul B (js_sub (js_mul D I) (js_mul F G))) (pow_neg1 1)))
           (js_mul (js_mul C (js_sub (js_mul D H) (js_mul E G))) (pow_neg1 2))"
    and r0_def: "r0 = fround (js_div (fround (js_mul (js_sub (js_mul E I) (js_mul H F)) (pow_neg1 0))) dv)"
    and r1_def: "r1 = fround (js_div (fround (js_mul (js_sub (js_mul B I) (js_mul H C)) (pow_neg1 1))) dv)"
    and r2_def: "r2 = fround (js_div (fround (js_mul (js_sub (js_mul B F) (js_mul E C)) (pow_neg1 2))) dv)"
    and r3_def: "r3 = fround (js_div (fround (js_mul (js_sub (js_mul D I) (js_mul G F)) (pow_neg1 3))) dv)"
    and r4_def: "r4 = fround (js_div (fround (js_mul (js_sub (js_mul A I) (js_mul G C)) (pow_neg1 4))) dv)"
    and r5_def: "r5 = fround (js_div (fround (js_mul (js_sub (js_mul A F) (js_mul D C)) (pow_neg1 5))) dv)"
    and r6_def: "r6 = fround (js_div (fround (js_mul (js_sub (js_mul D H) (js_mul G E)) (pow_neg1 6))) dv)"
    and r7_def: "r7 = fround (js_div (fround (js_mul (js_sub (js_mul A H) (js_mul G B)) (pow_neg1 7))) dv)"
    and r8_def: "r8 = fround (js_div (fround (js_mul (js_sub (js_mul A E) (js_mul D B)) (pow_neg1 8))) dv)"
  shows "int_val (fround (js_add (js_add (js_add js_zero (js_mul r0 A)) (js_mul r1 D)) (js_mul r2 G))) 1 1"
    and "int_val (fround (js_add (js_add (js_add js_zero (js_mul r0 B)) (js_mul r1 E)) (js_mul r2 H))) 0 1"
    and "int_val (fround (js_add (js_add (js_add js_zero (js_mul r0 C)) (js_mul r1 F)) (js_mul r2 I))) 0 1"
    and "int_val (fround (js_add (js_add (js_add js_zero (js_mul r3 A)) (js_mul r4 D)) (js_mul r5 G))) 0 1"
    and "int_val (fround (js_add (js_add (js_add js_zero (js_mul r3 B)) (js_mul r4 E)) (js_mul r5 H))) 1 1"
    and "int_val (fround (js_add (js_add (js_add js_zero (js_mul r3 C)) (js_mul r4 F)) (js_mul r5 I))) 0 1"
    and "int_val (fround (js_add (js_add (js_add js_zero (js_mul r6 A)) (js_mul r7 D)) (js_mul r8 G))) 0 1"
    and "int_val (fround (js_add (js_add (js_add js_zero (js_mul r6 B)) (js_mul r7 E)) (js_mul r8 H))) 0 1"
    and "int_val (fround (js_add (js_add (js_add js_zero (js_mul r6 C)) (js_mul r7 F)) (js_mul r8 I))) 1 1"
proof -
  define dp where "dp = a * (e * i - f * h) - b * (d * i - f * g) + c * (d * h - e * g)"
  have dv0: "int_val dv dp 51539607552"
    unfolding dv_def dp_def by (rule int_val_determinant_3x3 [OF A B C D E F G H I])
  have dp1: "\<bar>dp\<bar> \<le> 1" and dpn: "dp \<noteq> 0" and dpsq: "dp * dp = 1"
    using unit unfolding dp_def [symmetric] by auto
  have dv: "int_val dv dp 1" using dv0 dp1 by (rule int_val_tighten)
  have q0: "int_val (fround (js_mul (js_sub (js_mul E I) (js_mul H F)) (pow_neg1 0))) ((1) * (e * i - h * f)) 8388608"
    apply (rule int_val_weaken)
      apply ((rule A B C D E F G H I int_val_pow int_val_mul int_val_sub int_val_fround | simp)+)[1]
     apply (simp add: algebra_simps)
    apply simp
    done
  have r0: "int_val r0 (((1) * (e * i - h * f)) * dp) 8388608"
    unfolding r0_def
    by (rule int_val_fround [OF int_val_div_unit [OF q0 dv dpn]]) simp_all
  have q1: "int_val (fround (js_mul (js_sub (js_mul B I) (js_mul H C)) (pow_neg1 1))) ((- 1) * (b * i - h * c)) 8388608"
    apply (rule int_val_weaken)
      apply ((rule A B C D E F G H I int_val_pow int_val_mul int_val_sub int_val_fround | simp)+)[1]
     apply (simp add: algebra_simps)
    apply simp
    done
  have r1: "int_val r1 (((- 1) * (b * i - h * c)) * dp) 8388608"
    unfolding r1_def
    by (rule int_val_fround [OF int_val_div_unit [OF q1 dv dpn]]) simp_all
  have q2: "int_val (fround (js_mul (js_sub (js_mul B F) (js_mul E C)) (pow_neg1 2))) ((1) * (b * f - e * c)) 8388608"
    apply (rule int_val_weaken)
      apply ((rule A B C D E F G H I int_val_pow int_val_mul int_val_sub int_val_fround | simp)+)[1]
     apply (simp add: algebra_simps)
    apply simp
    done
  have r2: "int_val r2 (((1) * (b * f - e * c)) * dp) 8388608"
    unfolding r2_def
    by (rule int_val_fround [OF int_val_div_unit [OF q2 dv dpn]]) simp_all
  have q3: "int_val (fround (js_mul (js_sub (js_mul D I) (js_mul G F)) (pow_neg1 3))) ((- 1) * (d * i - g * f)) 8388608"
    apply (rule int_val_weaken)
      apply ((rule A B C D E F G H I int_val_pow int_val_mul int_val_sub int_val_fround | simp)+)[1]
     apply (simp add: algebra_simps)
    apply simp
    done
  have r3: "int_val r3 (((- 1) * (d * i - g * f)) * dp) 8388608"
    unfolding r3_def
    by (rule int_val_fround [OF int_val_div_unit [OF q3 dv dpn]]) simp_all
  have q4: "int_val (fround (js_mul (js_sub (js_mul A I) (js_mul G C)) (pow_neg1 4))) ((1) * (a * i - g * c)) 8388608"
    apply (rule int_val_weaken)
      apply ((rule A B C D E F G H I int_val_pow int_val_mul int_val_sub int_val_fround | simp)+)[1]
     apply (simp add: algebra_simps)
    apply simp
    done
  have r4: "int_val r4 (((1) * (a * i - g * c)) * dp) 8388608"
    unfolding r4_def
    by (rule int_val_fround [OF int_val_div_unit [OF q4 dv dpn]]) simp_all
  have q5: "int_val (fround (js_mul (js_sub (js_mul A F) (js_mul D C)) (pow_neg1 5))) ((- 1) * (a * f - d * c)) 8388608"
    apply (rule int_val_weaken)
      apply ((rule A B C D E F G H I int_val_pow int_val_mul int_val_sub int_val_fround | simp)+)[1]
     apply (simp add: algebra_simps)
    apply simp
    done
  have r5: "int_val r5 (((- 1) * (a * f - d * c)) * dp) 8388608"
    unfolding r5_def
    by (rule int_val_fround [OF int_val_div_unit [OF q5 dv dpn]]) simp_all
  have q6: "int_val (fround (js_mul (js_sub (js_mul D H) (js_mul G E)) (pow_neg1 6))) ((1) * (d * h - g * e)) 8388608"
    apply (rule int_val_weaken)
      apply ((rule A B C D E F G H I int_val_pow int_val_mul int_val_sub int_val_fround | simp)+)[1]
     apply (simp add: algebra_simps)
    apply simp
    done
  have r6: "int_val r6 (((1) * (d * h - g * e)) * dp) 8388608"
    unfolding r6_def
    by (rule int_val_fround [OF int_val_div_unit [OF q6 dv dpn]]) simp_all
  have q7: "int_val (fround (js_mul (js_sub (js_mul A H) (js_mul G B)) (pow_neg1 7))) ((- 1) * (a * h - g * b)) 8388608"
    apply (rule int_val_weaken)
      apply ((rule A B C D E F G H I int_val_pow int_val_mul int_val_sub int_val_fround | simp)+)[1]
     apply (simp add: algebra_simps)
    apply simp
    done
  have r7: "int_val r7 (((- 1) * (a * h - g * b)) * dp) 8388608"
    unfolding r7_def
    by (rule int_val_fround [OF int_val_div_unit [OF q7 dv dpn]]) simp_all
  have q8: "int_val (fround (js_mul (js_sub (js_mul A E) (js_mul D B)) (pow_neg1 8))) ((1) * (a * e - d * b)) 8388608"
    apply (rule int_val_weaken)
      apply ((rule A B C D E F G H I int_val_pow int_val_mul int_val_sub int_val_fround | simp)+)[1]
     apply (simp add: algebra_simps)
    apply simp
    done
  have r8: "int_val r8 (((1) * (a * e - d * b)) * dp) 8388608"
    unfolding r8_def
    by (rule int_val_fround [OF int_val_div_unit [OF q8 dv dpn]]) simp_all
  have c0: "((1) * (e * i - h * f)) * a + ((- 1) * (b * i - h * c)) * d + ((1) * (b * f - e * c)) * g = 1 * dp"
    unfolding dp_def by algebra
  have "(((1) * (e * i - h * f)) * dp) * a + (((- 1) * (b * i - h * c)) * dp) * d + (((1) * (b * f - e * c)) * dp) * g = (((1) * (e * i - h * f)) * a + ((- 1) * (b * i - h * c)) * d + ((1) * (b * f - e * c)) * g) * dp"
    by (simp add: algebra_simps)
  also have "\<dots> = (1 * dp) * dp" by (simp only: c0)
  also have "\<dots> = 1" by (simp add: dpsq)
  finally have p0: "(((1) * (e * i - h * f)) * dp) * a + (((- 1) * (b * i - h * c)) * dp) * d + (((1) * (b * f - e * c)) * dp) * g = 1" .
  have s0: "int_val (js_add (js_add (js_add js_zero (js_mul r0 A)) (js_mul r1 D)) (js_mul r2 G)) ((((1) * (e * i - h * f)) * dp) * a + (((- 1) * (b * i - h * c)) * dp) * d + (((1) * (b * f - e * c)) * dp) * g) 51539607552"
    apply (rule int_val_weaken)
      apply ((rule r0 r1 r2 A B C D E F G H I int_val_zero int_val_mul int_val_add | simp)+)[1]
     apply (simp add: algebra_simps)
    apply simp
    done
  show "int_val (fround (js_add (js_add (js_add js_zero (js_mul r0 A)) (js_mul r1 D)) (js_mul r2 G))) 1 1"
    by (rule int_val_fround [OF int_val_retarget [OF s0 p0]]) simp_all
  have c1: "((1) * (e * i - h * f)) * b + ((- 1) * (b * i - h * c)) * e + ((1) * (b * f - e * c)) * h = 0 * dp"
    unfolding dp_def by algebra
  have "(((1) * (e * i - h * f)) * dp) * b + (((- 1) * (b * i - h * c)) * dp) * e + (((1) * (b * f - e * c)) * dp) * h = (((1) * (e * i - h * f)) * b + ((- 1) * (b * i - h * c)) * e + ((1) * (b * f - e * c)) * h) * dp"
    by (simp add: algebra_simps)
  also have "\<dots> = (0 * dp) * dp" by (simp only: c1)
  also have "\<dots> = 0" by (simp add: dpsq)
  finally have p1: "(((1) * (e * i - h * f)) * dp) * b + (((- 1) * (b * i - h * c)) * dp) * e + (((1) * (b * f - e * c)) * dp) * h = 0" .
  have s1: "int_val (js_add (js_add (js_add js_zero (js_mul r0 B)) (js_mul r1 E)) (js_mul r2 H)) ((((1) * (e * i - h * f)) * dp) * b + (((- 1) * (b * i - h * c)) * dp) * e + (((1) * (b * f - e * c)) * dp) * h) 51539607552"
    apply (rule int_val_weaken)
      apply ((rule r0 r1 r2 A B C D E F G H I int_val_zero int_val_mul int_val_add | simp)+)[1]
     apply (simp add: algebra_simps)
    apply simp
    done
  show "int_val (fround (js_add (js_add (js_add js_zero (js_mul r0 B)) (js_mul r1 E)) (js_mul r2 H))) 0 1"
    by (rule int_val_fround [OF int_val_retarget [OF s1 p1]]) simp_all
  have c2: "((1) * (e * i - h * f)) * c + ((- 1) * (b * i - h * c)) * f + ((1) * (b * f - e * c)) * i = 0 * dp"
    unfolding dp_def by algebra
  have "(((1) * (e * i - h * f)) * dp) * c + (((- 1) * (b * i - h * c)) * dp) * f + (((1) * (b * f - e * c)) * dp) * i = (((1) * (e * i - h * f)) * c + ((- 1) * (b * i - h * c)) * f + ((1) * (b * f - e * c)) * i) * dp"
    by (simp add: algebra_simps)
  also have "\<dots> = (0 * dp) * dp" by (simp only: c2)
  also have "\<dots> = 0" by (simp add: dpsq)
  finally have p2: "(((1) * (e * i - h * f)) * dp) * c + (((- 1) * (b * i - h * c)) * dp) * f + (((1) * (b * f - e * c)) * dp) * i = 0" .
  have s2: "int_val (js_add (js_add (js_add js_zero (js_mul r0 C)) (js_mul r1 F)) (js_mul r2 I)) ((((1) * (e * i - h * f)) * dp) * c + (((- 1) * (b * i - h * c)) * dp) * f + (((1) * (b * f - e * c)) * dp) * i) 51539607552"
    apply (rule int_val_weaken)
      apply ((rule r0 r1 r2 A B C D E F G H I int_val_zero int_val_mul int_val_add | simp)+)[1]
     apply (simp add: algebra_simps)
    apply simp
    done
  show "int_val (fround (js_add (js_add (js_add js_zero (js_mul r0 C)) (js_mul r1 F)) (js_mul r2 I))) 0 1"
    by (rule int_val_fround [OF int_val_retarget [OF s2 p2]]) simp_all
  have c3: "((- 1) * (d * i - g * f)) * a + ((1) * (a * i - g * c)) * d + ((- 1) * (a * f - d * c)) * g = 0 * dp"
    unfolding dp_def by algebra
  have "(((- 1) * (d * i - g * f)) * dp) * a + (((1) * (a * i - g * c)) * dp) * d + (((- 1) * (a * f - d * c)) * dp) * g = (((- 1) * (d * i - g * f)) * a + ((1) * (a * i - g * c)) * d + ((- 1) * (a * f - d * c)) * g) * dp"
    by (simp add: algebra_simps)
  also have "\<dots> = (0 * dp) * dp" by (simp only: c3)
  also have "\<dots> = 0" by (simp add: dpsq)
  finally have p3: "(((- 1) * (d * i - g * f)) * dp) * a + (((1) * (a * i - g * c)) * dp) * d + (((- 1) * (a * f - d * c)) * dp) * g = 0" .
  have s3: "int_val (js_add (js_add (js_add js_zero (js_mul r3 A)) (js_mul r4 D)) (js_mul r5 G)) ((((- 1) * (d * i - g * f)) * dp) * a + (((1) * (a * i - g * c)) * dp) * d + (((- 1) * (a * f - d * c)) * dp) * g) 51539607552"
    apply (rule int_val_weaken)
      apply ((rule r3 r4 r5 A B C D E F G H I int_val_zero int_val_mul int_val_add | simp)+)[1]
     apply (simp add: algebra_simps)
    apply simp
    done
  show "int_val (fround (js_add (js_add (js_add js_zero (js_mul r3 A)) (js_mul r4 D)) (js_mul r5 G))) 0 1"
    by (rule int_val_fround [OF int_val_retarget [OF s3 p3]]) simp_all
  have c4: "((- 1) * (d * i - g * f)) * b + ((1) * (a * i - g * c)) * e + ((- 1) * (a * f - d * c)) * h = 1 * dp"
    unfolding dp_def by algebra
  have "(((- 1) * (d * i - g * f)) * dp) * b + (((1) * (a * i - g * c)) * dp) * e + (((- 1) * (a * f - d * c)) * dp) * h = (((- 1) * (d * i - g * f)) * b + ((1) * (a * i - g * c)) * e + ((- 1) * (a * f - d * c)) * h) * dp"
    by (simp add: algebra_simps)
  also have "\<dots> = (1 * dp) * dp" by (simp only: c4)
  also have "\<dots> = 1" by (simp add: dpsq)
  finally have p4: "(((- 1) * (d * i - g * f)) * dp) * b + (((1) * (a * i - g * c)) * dp) * e + (((- 1) * (a * f - d * c)) * dp) * h = 1" .
  have s4: "int_val (js_add (js_add (js_add js_zero (js_mul r3 B)) (js_mul r4 E)) (js_mul r5 H)) ((((- 1) * (d * i - g * f)) * dp) * b + (((1) * (a * i - g * c)) * dp) * e + (((- 1) * (a * f - d * c)) * dp) * h) 51539607552"
    apply (rule int_val_weaken)
      apply ((rule r3 r4 r5 A B C D E F G H I int_val_zero int_val_mul int_val_add | simp)+)[1]
     apply (simp add: algebra_simps)
    apply simp
    done
  show "int_val (fround (js_add (js_add (js_add js_zero (js_mul r3 B)) (js_mul r4 E)) (js_mul r5 H))) 1 1"
    by (rule int_val_fround [OF int_val_retarget [OF s4 p4]]) simp_all
  have c5: "((- 1) * (d * i - g * f)) * c + ((1) * (a * i - g * c)) * f + ((- 1) * (a * f - d * c)) * i = 0 * dp"
    unfolding dp_def by algebra
  have "(((- 1) * (d * i - g * f)) * dp) * c + (((1) * (a * i - g * c)) * dp) * f + (((- 1) * (a * f - d * c)) * dp) * i = (((- 1) * (d * i - g * f)) * c + ((1) * (a * i - g * c)) * f + ((- 1) * (a * f - d * c)) * i) * dp"
    by (simp add: algebra_simps)
  also have "\<dots> = (0 * dp) * dp" by (simp only: c5)
  also have "\<dots> = 0" by (simp add: dpsq)
  finally have p5: "(((- 1) * (d * i - g * f)) * dp) * c + (((1) * (a * i - g * c)) * dp) * f + (((- 1) * (a * f - d * c)) * dp) * i = 0" .
  have s5: "int_val (js_add (js_add (js_add js_zero (js_mul r3 C)) (js_mul r4 F)) (js_mul r5 I)) ((((- 1) * (d * i - g * f)) * dp) * c + (((1) * (a * i - g * c)) * dp) * f + (((- 1) * (a * f - d * c)) * dp) * i) 51539607552"
    apply (rule int_val_weaken)
      apply ((rule r3 r4 r5 A B C D E F G H I int_val_zero int_val_mul int_val_add | simp)+)[1]
     apply (simp add: algebra_simps)
    apply simp
    done
  show "int_val (fround (js_add (js_add (js_add js_zero (js_mul r3 C)) (js_mul r4 F)) (js_mul r5 I))) 0 1"
    by (rule int_val_fround [OF int_val_retarget [OF s5 p5]]) simp_all
  have c6: "((1) * (d * h - g * e)) * a + ((- 1) * (a * h - g * b)) * d + ((1) * (a * e - d * b)) * g = 0 * dp"
    unfolding dp_def by algebra
  have "(((1) * (d * h - g * e)) * dp) * a + (((- 1) * (a * h - g * b)) * dp) * d + (((1) * (a * e - d * b)) * dp) * g = (((1) * (d * h - g * e)) * a + ((- 1) * (a * h - g * b)) * d + ((1) * (a * e - d * b)) * g) * dp"
    by (simp add: algebra_simps)
  also have "\<dots> = (0 * dp) * dp" by (simp only: c6)
  also have "\<dots> = 0" by (simp add: dpsq)
  finally have p6: "(((1) * (d * h - g * e)) * dp) * a + (((- 1) * (a * h - g * b)) * dp) * d + (((1) * (a * e - d * b)) * dp) * g = 0" .
  have s6: "int_val (js_add (js_add (js_add js_zero (js_mul r6 A)) (js_mul r7 D)) (js_mul r8 G)) ((((1) * (d * h - g * e)) * dp) * a + (((- 1) * (a * h - g * b)) * dp) * d + (((1) * (a * e - d * b)) * dp) * g) 51539607552"
    apply (rule int_val_weaken)
      apply ((rule r6 r7 r8 A B C D E F G H I int_val_zero int_val_mul int_val_add | simp)+)[1]
     apply (simp add: algebra_simps)
    apply simp
    done
  show "int_val (fround (js_add (js_add (js_add js_zero (js_mul r6 A)) (js_mul r7 D)) (js_mul r8 G))) 0 1"
    by (rule int_val_fround [OF int_val_retarget [OF s6 p6]]) simp_all
  have c7: "((1) * (d * h - g * e)) * b + ((- 1) * (a * h - g * b)) * e + ((1) * (a * e - d * b)) * h = 0 * dp"
    unfolding dp_def by algebra
  have "(((1) * (d * h - g * e)) * dp) * b + (((- 1) * (a * h - g * b)) * dp) * e + (((1) * (a * e - d * b)) * dp) * h = (((1) * (d * h - g * e)) * b + ((- 1) * (a * h - g * b)) * e + ((1) * (a * e - d * b)) * h) * dp"
    by (simp add: algebra_simps)
  also have "\<dots> = (0 * dp) * dp" by (simp only: c7)
  also have "\<dots> = 0" by (simp add: dpsq)
  finally have p7: "(((1) * (d * h - g * e)) * dp) * b + (((- 1) * (a * h - g * b)) * dp) * e + (((1) * (a * e - d * b)) * dp) * h = 0" .
  have s7: "int_val (js_add (js_add (js_add js_zero (js_mul r6 B)) (js_mul r7 E)) (js_mul r8 H)) ((((1) * (d * h - g * e)) * dp) * b + (((- 1) * (a * h - g * b)) * dp) * e + (((1) * (a * e - d * b)) * dp) * h) 51539607552"
    apply (rule int_val_weaken)
      apply ((rule r6 r7 r8 A B C D E F G H I int_val_zero int_val_mul int_val_add | simp)+)[1]
     apply (simp add: algebra_simps)
    apply simp
    done
  show "int_val (fround (js_add (js_add (js_add js_zero (js_mul r6 B)) (js_mul r7 E)) (js_mul r8 H))) 0 1"
    by (rule int_val_fround [OF int_val_retarget [OF s7 p7]]) simp_all
  have c8: "((1) * (d * h - g * e)) * c + ((- 1) * (a * h - g * b)) * f + ((1) * (a * e - d * b)) * i = 1 * dp"
    unfolding dp_def by algebra
  have "(((1) * (d * h - g * e)) * dp) * c + (((- 1) * (a * h - g * b)) * dp) * f + (((1) * (a * e - d * b)) * dp) * i = (((1) * (d * h - g * e)) * c + ((- 1) * (a * h - g * b)) * f + ((1) * (a * e - d * b)) * i) * dp"
    by (simp add: algebra_simps)
  also have "\<dots> = (1 * dp) * dp" by (simp only: c8)
  also have "\<dots> = 1" by (simp add: dpsq)
  finally have p8: "(((1) * (d * h - g * e)) * dp) * c + (((- 1) * (a * h - g * b)) * dp) * f + (((1) * (a * e - d * b)) * dp) * i = 1" .
  have s8: "int_val (js_add (js_add (js_add js_zero (js_mul r6 C)) (js_mul r7 F)) (js_mul r8 I)) ((((1) * (d * h - g * e)) * dp) * c + (((- 1) * (a * h - g * b)) * dp) * f + (((1) * (a * e - d * b)) * dp) * i) 51539607552"
    apply (rule int_val_weaken)
      apply ((rule r6 r7 r8 A B C D E F G H I int_val_zero int_val_mul int_val_add | simp)+)[1]
     apply (simp add: algebra_simps)
    apply simp
    done
  show "int_val (fround (js_add (js_add (js_add js_zero (js_mul r6 C)) (js_mul r7 F)) (js_mul r8 I))) 1 1"
    by (rule int_val_fround [OF int_val_retarget [OF s8 p8]]) simp_all
qed

lemma inverse_3x3:
  assumes "ySize m = 3" and "xSize m = 3" and "vals m = [A, B, C, D, E, F, G, H, I]"
    and "matrix_ok m" and "determinant m = Inr dv" and "\<not> js_strict_eq dv js_zero"
  shows "inverse_m m
       = Inr \<lparr>ySize = 3, xSize = 3,
               vals = [fround (js_div (fround (js_mul (js_sub (js_mul E I) (js_mul H F)) (pow_neg1 0))) dv),
                       fround (js_div (fround (js_mul (js_sub (js_mul B I) (js_mul H C)) (pow_neg1 1))) dv),
                       fround (js_div (fround (js_mul (js_sub (js_mul B F) (js_mul E C)) (pow_neg1 2))) dv),
                       fround (js_div (fround (js_mul (js_sub (js_mul D I) (js_mul G F)) (pow_neg1 3))) dv),
                       fround (js_div (fround (js_mul (js_sub (js_mul A I) (js_mul G C)) (pow_neg1 4))) dv),
                       fround (js_div (fround (js_mul (js_sub (js_mul A F) (js_mul D C)) (pow_neg1 5))) dv),
                       fround (js_div (fround (js_mul (js_sub (js_mul D H) (js_mul G E)) (pow_neg1 6))) dv),
                       fround (js_div (fround (js_mul (js_sub (js_mul A H) (js_mul G B)) (pow_neg1 7))) dv),
                       fround (js_div (fround (js_mul (js_sub (js_mul A E) (js_mul D B)) (pow_neg1 8))) dv)]\<rparr>"
proof -
  have "adjugate m = Inr (adjugate_spec m)"
    using assms(1,2,4) by (intro adjugate_ok) simp_all
  then show ?thesis
    using assms(5,6)
    by (simp add: inverse_m_def adjugate_spec_3x3 [OF assms(1-3)] map_m_def construct_def
        to_number_def)
qed

lemma multiply_3x3:
  assumes "vals m = [A, B, C, D, E, F, G, H, I]" and "ySize m = 3" and "xSize m = 3"
    and "r = \<lparr>ySize = 3, xSize = 3, vals = [R0, R1, R2, R3, R4, R5, R6, R7, R8]\<rparr>"
  shows "multiply r (Matrix m)
       = Inr \<lparr>ySize = 3, xSize = 3,
               vals = [fround (js_add (js_add (js_add js_zero (js_mul R0 A)) (js_mul R1 D)) (js_mul R2 G)),
                       fround (js_add (js_add (js_add js_zero (js_mul R0 B)) (js_mul R1 E)) (js_mul R2 H)),
                       fround (js_add (js_add (js_add js_zero (js_mul R0 C)) (js_mul R1 F)) (js_mul R2 I)),
                       fround (js_add (js_add (js_add js_zero (js_mul R3 A)) (js_mul R4 D)) (js_mul R5 G)),
                       fround (js_add (js_add (js_add js_zero (js_mul R3 B)) (js_mul R4 E)) (js_mul R5 H)),
                       fround (js_add (js_add (js_add js_zero (js_mul R3 C)) (js_mul R4 F)) (js_mul R5 I)),
                       fround (js_add (js_add (js_add js_zero (js_mul R6 A)) (js_mul R7 D)) (js_mul R8 G)),
                       fround (js_add (js_add (js_add js_zero (js_mul R6 B)) (js_mul R7 E)) (js_mul R8 H)),
                       fround (js_add (js_add (js_add js_zero (js_mul R6 C)) (js_mul R7 F)) (js_mul R8 I))]\<rparr>"
proof -
  have "multiply r (Matrix m) = Inr (multiply_spec r m)"
    using assms(3,4) by (intro multiply_matrix_ok) simp_all
  then show ?thesis
    using assms
    by (simp add: multiply_spec_def get_def typed_get_def to_number_def upto_rec1)
qed

lemma is_float32_js_int: "\<bar>a\<bar> < 2 ^ 24 \<Longrightarrow> is_float32 (js_int a)"
  unfolding is_float32_def js_int_def by (rule fround_of_int) simp_all

lemma int_val_one: "int_val js_one 1 1"
  by (auto simp: int_val_def js_one_def)

lemma identity_spec_3:
  "identity_spec 3
     = \<lparr>ySize = 3, xSize = 3,
        vals = [js_one, js_zero, js_zero, js_zero, js_one, js_zero, js_zero, js_zero, js_one]\<rparr>"
  by (simp add: identity_spec_def upto_rec1)

text \<open>
  A family of matrices on which nothing is rounded: the 3 by 3 matrices whose elements
  are integers of magnitude at most 2048 and whose \<^verbatim>\<open>determinant()\<close> is 1 or -1. Every
  intermediate value is an integer that single and double precision hold exactly, and
  \<^verbatim>\<open>m.inverse().multiply(m)\<close> equals \<^verbatim>\<open>identity(3)\<close>.
\<close>

lemma inverse_round_trip_integer:
  assumes dims: "ySize m = 3" "xSize m = 3"
    and v: "vals m = map js_int [a, b, c, d, e, f, g, h, i]"
    and bnd: "\<forall>k\<in>set [a, b, c, d, e, f, g, h, i]. \<bar>k\<bar> \<le> 2048"
    and det: "determinant m = Inr (js_int 1) \<or> determinant m = Inr (js_int (- 1))"
  shows "\<exists>inv p. inverse_m m = Inr inv \<and> multiply inv (Matrix m) = Inr p
           \<and> identity 3 = Inr (identity_spec 3) \<and> eq p (identity_spec 3)"
proof -
  define dp where "dp = a * (e * i - f * h) - b * (d * i - f * g) + c * (d * h - e * g)"
  define dv where "dv = determinant_spec m"
  have v': "vals m = [js_int a, js_int b, js_int c, js_int d, js_int e, js_int f,
                      js_int g, js_int h, js_int i]"
    by (simp add: v)
  have leaf: "int_val (js_int a) a 2048" "int_val (js_int b) b 2048" "int_val (js_int c) c 2048"
    "int_val (js_int d) d 2048" "int_val (js_int e) e 2048" "int_val (js_int f) f 2048"
    "int_val (js_int g) g 2048" "int_val (js_int h) h 2048" "int_val (js_int i) i 2048"
    using bnd by (simp_all add: int_val_js_int)
  have ok: "matrix_ok m"
    using bnd by (simp add: matrix_ok_def dims v is_float32_js_int)
  have d: "determinant m = Inr dv"
    unfolding dv_def using ok dims by (intro determinant_refines) simp_all
  note dv3 = determinant_spec_3x3 [OF dims v', folded dv_def]
  have dv0: "int_val dv dp 51539607552"
    unfolding dv3 dp_def by (rule int_val_determinant_3x3 [OF leaf])
  have unit: "dp = 1 \<or> dp = - 1"
  proof -
    have "js_strict_eq dv (js_int 1) = (dp = 1)"
      by (rule int_val_strict_eq [OF dv0 int_val_js_int [of 1 1]]) simp
    moreover have "js_strict_eq dv (js_int (- 1)) = (dp = - 1)"
      by (rule int_val_strict_eq [OF dv0 int_val_js_int [of "- 1" 1]]) simp
    moreover have "js_strict_eq (js_int 1) (js_int 1)" "js_strict_eq (js_int (- 1)) (js_int (- 1))"
      by (simp_all add: js_int_def)
    ultimately show ?thesis using det d by auto
  qed
  have nz: "\<not> js_strict_eq dv js_zero"
    using int_val_strict_eq [OF dv0 int_val_zero] unit by auto
  note inv = inverse_3x3 [OF dims v' ok d nz]
  note mul = multiply_3x3 [OF v' dims refl]
  note ent = round_trip_entries [OF leaf unit [unfolded dp_def] dv3
      refl refl refl refl refl refl refl refl refl]
  have "identity 3 = Inr (identity_spec 3)" by (rule identity_ok) simp_all
  moreover have "eq \<lparr>ySize = 3, xSize = 3, vals = [x0, x1, x2, x3, x4, x5, x6, x7, x8]\<rparr> (identity_spec 3)"
    if "int_val x0 1 1" "int_val x1 0 1" "int_val x2 0 1" "int_val x3 0 1" "int_val x4 1 1"
      "int_val x5 0 1" "int_val x6 0 1" "int_val x7 0 1" "int_val x8 1 1"
    for x0 x1 x2 x3 x4 x5 x6 x7 x8
    using that [THEN int_val_strict_eq, OF int_val_one] that [THEN int_val_strict_eq, OF int_val_zero]
    by (simp add: eq_def identity_spec_3 typed_get_def upto_rec1)
  ultimately show ?thesis
    using inv mul ent by (intro exI conjI) (simp_all (no_asm_simp))
qed

subsection \<open>The two by two case\<close>

text \<open>
  The matrix \<^verbatim>\<open>matrix(2,2)(1,2,3,4)\<close> has the determinant -2; its inverse, as
  computed, is the matrix of zeros (the one in the comment of \<^verbatim>\<open>inverse\<close> in the source),
  and the product of the inverse and the matrix is the zero matrix.
\<close>

lemma inverse_2x2_round_trip:
  "determinant \<lparr>ySize = 2, xSize = 2, vals = map js_int [1, 2, 3, 4]\<rparr> = Inr (js_int (- 2))
   \<and> inverse_m \<lparr>ySize = 2, xSize = 2, vals = map js_int [1, 2, 3, 4]\<rparr>
       = Inr \<lparr>ySize = 2, xSize = 2,
               vals = [Finite True 0, Finite False 0, Finite True 0, Finite False 0]\<rparr>
   \<and> multiply \<lparr>ySize = 2, xSize = 2,
               vals = [Finite True 0, Finite False 0, Finite True 0, Finite False 0]\<rparr>
        (Matrix \<lparr>ySize = 2, xSize = 2, vals = map js_int [1, 2, 3, 4]\<rparr>)
       = Inr \<lparr>ySize = 2, xSize = 2,
               vals = [Finite False 0, Finite False 0, Finite False 0, Finite False 0]\<rparr>
   \<and> identity 2 = Inr \<lparr>ySize = 2, xSize = 2, vals = map js_int [1, 0, 0, 1]\<rparr>
   \<and> \<not> eq \<lparr>ySize = 2, xSize = 2,
               vals = [Finite False 0, Finite False 0, Finite False 0, Finite False 0]\<rparr>
            \<lparr>ySize = 2, xSize = 2, vals = map js_int [1, 0, 0, 1]\<rparr>"
  by (simp add: inverse_2x2_example) (simp add: matrix_eval array_eval num_eval eq_def)

subsection \<open>An inverse that is rounded\<close>











subsection \<open>The determinant by cofactor expansion\<close>

text \<open>
  The expansion along the first row equals the expansion along the first column; the
  determinant is that of the transposed matrix, changes its sign when two neighbouring
  rows are exchanged, and is zero when two rows are equal. Hence the expansion along
  any row, and the sum of the elements of one row with the cofactors of another row,
  which is zero.
\<close>

lemma laplace_1: "laplace (Suc 0) A = A 0 0"
  by (simp add: laplace.simps(2))

lemma laplace_cong:
  "(\<And>r c. r < n \<Longrightarrow> c < n \<Longrightarrow> A r c = B r c) \<Longrightarrow> laplace n A = laplace n B"
proof (induction n arbitrary: A B)
  case 0
  show ?case by simp
next
  case (Suc n)
  have "laplace n (minor_exact A 0 x) = laplace n (minor_exact B 0 x)" if "x < Suc n" for x
    using that by (intro Suc.IH) (simp add: minor_exact_def Suc.prems)
  then show ?case
    unfolding laplace.simps(2) by (intro sum.cong refl) (simp add: Suc.prems)
qed

lemma laplace_first_column:
  "laplace (Suc n) A = (\<Sum>i<Suc n. (- 1) ^ i * A i 0 * laplace n (minor_exact A i 0))"
proof (induction n arbitrary: A)
  case 0
  show ?case by (simp add: laplace.simps(2))
next
  case (Suc n)
  define M where "M i j = laplace n (minor_exact (minor_exact A (Suc i) 0) 0 j)" for i j
  have comm: "minor_exact (minor_exact A 0 (Suc j)) i 0 = minor_exact (minor_exact A (Suc i) 0) 0 j"
    for i j
    by (auto simp: minor_exact_def fun_eq_iff)
  have e1: "minor_exact A (Suc i) 0 0 j = A 0 (Suc j)" for i j
    by (simp add: minor_exact_def)
  have e2: "minor_exact A 0 (Suc j) i 0 = A (Suc i) 0" for i j
    by (simp add: minor_exact_def)
  have row: "laplace (Suc n) (minor_exact A (Suc i) 0)
               = (\<Sum>j<Suc n. (- 1) ^ j * A 0 (Suc j) * M i j)" for i
    unfolding laplace.simps(2) [of n] e1 M_def ..
  have col: "laplace (Suc n) (minor_exact A 0 (Suc j))
               = (\<Sum>i<Suc n. (- 1) ^ i * A (Suc i) 0 * M i j)" for j
    unfolding Suc.IH [of "minor_exact A 0 (Suc j)"] e2 comm M_def ..
  have "laplace (Suc (Suc n)) A
      = A 0 0 * laplace (Suc n) (minor_exact A 0 0)
        + (\<Sum>j<Suc n. (- 1) ^ Suc j * A 0 (Suc j) * laplace (Suc n) (minor_exact A 0 (Suc j)))"
    by (subst laplace.simps(2)) (simp add: sum.lessThan_Suc_shift del: sum.lessThan_Suc)
  also have "(\<Sum>j<Suc n. (- 1) ^ Suc j * A 0 (Suc j) * laplace (Suc n) (minor_exact A 0 (Suc j)))
      = (\<Sum>j<Suc n. \<Sum>i<Suc n. (- 1) ^ Suc j * A 0 (Suc j) * ((- 1) ^ i * A (Suc i) 0 * M i j))"
    unfolding col sum_distrib_left ..
  also have "\<dots> = (\<Sum>i<Suc n. \<Sum>j<Suc n. (- 1) ^ Suc i * A (Suc i) 0 * ((- 1) ^ j * A 0 (Suc j) * M i j))"
    by (subst sum.swap) (intro sum.cong refl, simp)
  also have "\<dots> = (\<Sum>i<Suc n. (- 1) ^ Suc i * A (Suc i) 0 * laplace (Suc n) (minor_exact A (Suc i) 0))"
    unfolding row sum_distrib_left ..
  also have "A 0 0 * laplace (Suc n) (minor_exact A 0 0) + \<dots>
      = (\<Sum>i<Suc (Suc n). (- 1) ^ i * A i 0 * laplace (Suc n) (minor_exact A i 0))"
    by (simp add: sum.lessThan_Suc_shift del: sum.lessThan_Suc)
  finally show ?case .
qed

lemma laplace_transpose: "laplace n (\<lambda>r c. A c r) = laplace n A"
proof (induction n arbitrary: A)
  case 0
  show ?case by simp
next
  case (Suc n)
  have m: "minor_exact (\<lambda>r c. A c r) 0 x = (\<lambda>r c. minor_exact A x 0 c r)" for x
    by (simp add: minor_exact_def fun_eq_iff)
  have ih: "laplace n (\<lambda>r c. minor_exact A x 0 c r) = laplace n (minor_exact A x 0)" for x
    by (rule Suc.IH)
  have "laplace (Suc n) (\<lambda>r c. A c r)
      = (\<Sum>x<Suc n. (- 1) ^ x * A x 0 * laplace n (\<lambda>r c. minor_exact A x 0 c r))"
    unfolding laplace.simps(2) [of n "\<lambda>r c. A c r"] m ..
  also have "\<dots> = (\<Sum>x<Suc n. (- 1) ^ x * A x 0 * laplace n (minor_exact A x 0))"
    unfolding ih ..
  also have "\<dots> = laplace (Suc n) A"
    unfolding laplace_first_column [of n A] ..
  finally show ?case .
qed

lemma minor_exact_rows:
  "minor_exact (\<lambda>r. A (g r)) i x
     = (\<lambda>r c. A (g (if r < i then r else r + 1)) (if c < x then c else c + 1))"
  by (simp add: minor_exact_def)

lemma minor_exact_reindex:
  assumes "\<And>r. g (if r < i then r else r + 1) = (if h r < j then h r else h r + 1)"
  shows "minor_exact (\<lambda>r. A (g r)) i x = (\<lambda>r. minor_exact A j x (h r))"
  unfolding minor_exact_def by (intro ext) (simp only: assms)

lemma laplace_swap_rows:
  "Suc k < n \<Longrightarrow>
   laplace n (\<lambda>r. A (if r = k then Suc k else if r = Suc k then k else r)) = - laplace n A"
proof (induction n arbitrary: A k)
  case 0
  then show ?case by simp
next
  case (Suc n)
  define sw where "sw r = (if r = k then Suc k else if r = Suc k then k else r)" for r
  define B where "B = (\<lambda>r. A (sw r))"
  define f where "f i = (- 1) ^ i * A i 0 * laplace n (minor_exact A i 0)" for i
  have tm: "(- 1) ^ i * B i 0 * laplace n (minor_exact B i 0) = - f (sw i)" if "i < Suc n" for i
  proof -
    consider "i < k" | "i = k" | "i = Suc k" | "Suc k < i" by linarith
    then show ?thesis
    proof cases
      case 1
      then obtain k' where k': "k = Suc k'" by (cases k) auto
      have "minor_exact B i 0
              = (\<lambda>r. minor_exact A i 0 (if r = k' then Suc k' else if r = Suc k' then k' else r))"
        unfolding B_def using 1 by (intro minor_exact_reindex) (auto simp: sw_def k')
      moreover have "Suc k' < n" using Suc.prems k' by simp
      ultimately have "laplace n (minor_exact B i 0) = - laplace n (minor_exact A i 0)"
        by (simp only: Suc.IH)
      moreover have "sw i = i" using 1 by (simp add: sw_def)
      ultimately show ?thesis by (simp add: f_def B_def)
    next
      case 2
      have "minor_exact B i 0 = (\<lambda>r. minor_exact A (Suc k) 0 r)"
        unfolding B_def using 2 by (intro minor_exact_reindex) (auto simp: sw_def)
      moreover have "sw i = Suc k" using 2 by (simp add: sw_def)
      ultimately show ?thesis by (simp add: f_def B_def 2)
    next
      case 3
      have "minor_exact B i 0 = (\<lambda>r. minor_exact A k 0 r)"
        unfolding B_def using 3 by (intro minor_exact_reindex) (auto simp: sw_def)
      moreover have "sw i = k" using 3 by (simp add: sw_def)
      ultimately show ?thesis by (simp add: f_def B_def 3)
    next
      case 4
      have "minor_exact B i 0
              = (\<lambda>r. minor_exact A i 0 (if r = k then Suc k else if r = Suc k then k else r))"
        unfolding B_def using 4 by (intro minor_exact_reindex) (auto simp: sw_def)
      moreover have "Suc k < n" using 4 that by simp
      ultimately have "laplace n (minor_exact B i 0) = - laplace n (minor_exact A i 0)"
        by (simp only: Suc.IH)
      moreover have "sw i = i" using 4 by (simp add: sw_def)
      ultimately show ?thesis by (simp add: f_def B_def)
    qed
  qed
  have "laplace (Suc n) B = (\<Sum>i<Suc n. - f (sw i))"
    unfolding laplace_first_column [of n B] by (intro sum.cong refl) (simp only: tm lessThan_iff)
  also have "\<dots> = - (\<Sum>i<Suc n. f (sw i))"
    by (simp only: sum_negf)
  also have "(\<Sum>i<Suc n. f (sw i)) = (\<Sum>i<Suc n. f i)"
    using Suc.prems by (intro sum.reindex_bij_witness [of _ sw sw]) (auto simp: sw_def)
  also have "\<dots> = laplace (Suc n) A"
    unfolding laplace_first_column [of n A] f_def ..
  finally show ?case unfolding B_def sw_def .
qed

lemma laplace_equal_rows_aux:
  "(\<And>c. A x c = A (Suc (x + d)) c) \<Longrightarrow> Suc (x + d) < n \<Longrightarrow> laplace n A = 0"
proof (induction d arbitrary: A)
  case 0
  have "(\<lambda>r. A (if r = x then Suc x else if r = Suc x then x else r)) = A"
    using 0(1) by (auto simp: fun_eq_iff)
  with laplace_swap_rows [of x n A] 0(2) have "laplace n A = - laplace n A" by simp
  then show ?case by simp
next
  case (Suc d)
  define k where "k = Suc (x + d)"
  define B where "B = (\<lambda>r. A (if r = k then Suc k else if r = Suc k then k else r))"
  have "laplace n B = - laplace n A"
    unfolding B_def using Suc.prems(2) by (intro laplace_swap_rows) (simp add: k_def)
  moreover have "laplace n B = 0"
  proof (rule Suc.IH)
    show "B x c = B (Suc (x + d)) c" for c
      using Suc.prems(1) [of c] by (simp add: B_def k_def)
    show "Suc (x + d) < n" using Suc.prems(2) by simp
  qed
  ultimately show ?case by simp
qed

lemma laplace_equal_rows:
  assumes "x \<noteq> y" "x < n" "y < n" "\<And>c. A x c = A y c"
  shows "laplace n A = 0"
proof -
  have *: "laplace n A = 0" if "a < b" "b < n" "\<And>c. A a c = A b c" for a b
  proof -
    from less_imp_Suc_add [OF that(1)] obtain d where "b = Suc (a + d)" by auto
    then show ?thesis using that laplace_equal_rows_aux [of A a d n] by simp
  qed
  show ?thesis
  proof (cases "x < y")
    case True
    then show ?thesis using assms by (intro * [of x y]) simp_all
  next
    case False
    then have "y < x" using assms(1) by simp
    then show ?thesis using assms by (intro * [of y x]) simp_all
  qed
qed

lemma laplace_row:
  "y < Suc n \<Longrightarrow>
   (\<Sum>z<Suc n. (- 1) ^ (y + z) * A y z * laplace n (minor_exact A y z)) = laplace (Suc n) A"
proof (induction y arbitrary: A)
  case 0
  show ?case by (simp add: laplace.simps(2))
next
  case (Suc y)
  define B where "B = (\<lambda>r. A (if r = y then Suc y else if r = Suc y then y else r))"
  have m: "minor_exact B y z = (\<lambda>r. minor_exact A (Suc y) z r)" for z
    unfolding B_def by (intro minor_exact_reindex) auto
  have brow: "B y z = A (Suc y) z" for z by (simp add: B_def)
  have "(\<Sum>z<Suc n. (- 1) ^ (y + z) * B y z * laplace n (minor_exact B y z)) = laplace (Suc n) B"
    using Suc.prems by (intro Suc.IH) simp
  also have "laplace (Suc n) B = - laplace (Suc n) A"
    unfolding B_def using Suc.prems by (intro laplace_swap_rows) simp
  finally have "(\<Sum>z<Suc n. (- 1) ^ (y + z) * A (Suc y) z * laplace n (minor_exact A (Suc y) z))
                  = - laplace (Suc n) A"
    unfolding m brow .
  then have "- (\<Sum>z<Suc n. (- 1) ^ (y + z) * A (Suc y) z * laplace n (minor_exact A (Suc y) z))
                  = laplace (Suc n) A"
    by simp
  also have "- (\<Sum>z<Suc n. (- 1) ^ (y + z) * A (Suc y) z * laplace n (minor_exact A (Suc y) z))
           = (\<Sum>z<Suc n. (- 1) ^ (Suc y + z) * A (Suc y) z * laplace n (minor_exact A (Suc y) z))"
    unfolding sum_negf [symmetric] by (intro sum.cong refl) simp
  finally show ?case .
qed

lemma laplace_cofactors:
  assumes "x < Suc n" "y < Suc n"
  shows "(\<Sum>z<Suc n. (- 1) ^ (y + z) * A x z * laplace n (minor_exact A y z))
           = (if x = y then laplace (Suc n) A else 0)"
proof (cases "x = y")
  case True
  then show ?thesis using laplace_row [OF assms(2), of A] by simp
next
  case False
  define C where "C = (\<lambda>r. if r = y then A x else A r)"
  have m: "minor_exact C y z = minor_exact A y z" for z
    by (auto simp: minor_exact_def C_def fun_eq_iff)
  have cy: "C y z = A x z" for z by (simp add: C_def)
  have "(\<Sum>z<Suc n. (- 1) ^ (y + z) * C y z * laplace n (minor_exact C y z)) = laplace (Suc n) C"
    using assms(2) by (rule laplace_row)
  moreover have "laplace (Suc n) C = 0"
    using False assms by (intro laplace_equal_rows [of x y]) (simp_all add: C_def)
  ultimately have "(\<Sum>z<Suc n. (- 1) ^ (y + z) * A x z * laplace n (minor_exact A y z)) = 0"
    unfolding m cy by simp
  then show ?thesis using False by simp
qed

subsection \<open>The inverse in exact arithmetic\<close>

text \<open>
  From the size 2 on \<open>determinant_exact\<close> is the determinant. For an odd size the sign
  \<open>(-1) ^ (y * n + x)\<close> of \<open>adjugate_exact\<close> is the sign \<open>(-1) ^ (y + x)\<close> of the cofactor,
  and the product of \<open>inverse_exact\<close> and the matrix is the identity.
\<close>

lemma determinant_exact_1: "determinant_exact (Suc 0) A = 0"
  by (simp add: determinant_exact.simps(2))

lemma determinant_exact_laplace: "2 \<le> n \<Longrightarrow> determinant_exact n A = laplace n A"
proof (induction n arbitrary: A)
  case 0
  then show ?case by simp
next
  case (Suc n)
  show ?case
  proof (cases "n = 1")
    case True
    then show ?thesis
      by (simp add: determinant_exact.simps(2) laplace.simps(2) minor_exact_def)
  next
    case False
    with Suc.prems have n: "2 \<le> n" by simp
    have "determinant_exact (Suc n) A
        = (\<Sum>x<Suc n. A 0 x * determinant_exact n (minor_exact A 0 x) * (- 1) ^ x)"
      using False by (subst determinant_exact.simps(2)) simp
    also have "\<dots> = (\<Sum>x<Suc n. (- 1) ^ x * A 0 x * laplace n (minor_exact A 0 x))"
      by (intro sum.cong refl) (simp add: Suc.IH [OF n])
    finally show ?thesis by (simp only: laplace.simps(2))
  qed
qed

lemma exact_round_trip:
  assumes odd: "odd n" and det: "determinant_exact n A \<noteq> 0" and y: "y < n" and x: "x < n"
  shows "(\<Sum>z<n. inverse_exact n A y z * A z x) = (if x = y then 1 else 0)"
proof -
  have "n \<noteq> 1" using det by (auto simp: determinant_exact_1)
  with odd obtain k where n: "n = Suc k" and k: "2 \<le> k"
    by (cases n) (auto elim: oddE)
  have sign: "(- 1 :: rat) ^ (y * n + z) = (- 1) ^ (y + z)" for z
  proof -
    have "(- 1 :: rat) ^ (y * n) = ((- 1) ^ n) ^ y" by (simp add: power_mult mult.commute)
    also have "\<dots> = (- 1) ^ y" using odd by simp
    finally show ?thesis by (simp add: power_add)
  qed
  have D: "determinant_exact n A = laplace (Suc k) A"
    using k by (simp add: determinant_exact_laplace n)
  have "(\<Sum>z<n. inverse_exact n A y z * A z x)
      = (\<Sum>z<Suc k. (- 1) ^ (y + z) * A z x * laplace k (minor_exact (\<lambda>r c. A c r) y z))
          / laplace (Suc k) A"
    unfolding inverse_exact_def adjugate_exact_def sign D sum_divide_distrib
    by (intro sum.cong) (simp_all add: n determinant_exact_laplace [OF k])
  also have "(\<Sum>z<Suc k. (- 1) ^ (y + z) * A z x * laplace k (minor_exact (\<lambda>r c. A c r) y z))
      = (if x = y then laplace (Suc k) (\<lambda>r c. A c r) else 0)"
    using laplace_cofactors [of x k y "\<lambda>r c. A c r"] x y by (simp add: n)
  finally show ?thesis
    using det by (simp add: laplace_transpose [of "Suc k" A] D)
qed




lemma value_of_js_int [simp]: "value_of (js_int i) = of_int i"
  by (simp add: value_of_def js_int_def signed_def)


lemma determinant_exact_3:
  "determinant_exact 3 A
     = A 0 0 * (A 1 1 * A 2 2 - A 1 2 * A 2 1) * 1
       + A 0 1 * (A 1 0 * A 2 2 - A 1 2 * A 2 0) * (- 1)
       + A 0 2 * (A 1 0 * A 2 1 - A 1 1 * A 2 0) * 1"
  by (simp add: numeral_3_eq_3 determinant_exact.simps(2) minor_exact_def numeral_2_eq_2)

lemma determinant_exact_2:
  "determinant_exact 2 A = A 0 0 * A 1 1 - A 0 1 * A 1 0"
  by (simp add: numeral_2_eq_2 determinant_exact.simps(2))

subsection \<open>An even size\<close>

text \<open>
  For an even size the sign \<open>(-1) ^ (y * n + x)\<close> is not the sign of the cofactor. The
  identity of size four has the determinant 1; \<^verbatim>\<open>inverse()\<close> returns the diagonal
  \<open>1, -1, 1, -1\<close>, as \<open>inverse_exact\<close> does, nothing is rounded, and the product of the
  inverse and the matrix is not equal to \<^verbatim>\<open>identity(4)\<close>.
\<close>

lemma determinant_identity_4:
  "determinant \<lparr>ySize = 4, xSize = 4, vals = map js_int [1, 0, 0, 0, 0, 1, 0, 0, 0, 0, 1, 0, 0, 0, 0, 1]\<rparr>
     = Inr (js_int 1)"
  by (simp add: matrix_eval array_eval num_eval)

lemma inverse_identity_4:
  "inverse_m \<lparr>ySize = 4, xSize = 4, vals = map js_int [1, 0, 0, 0, 0, 1, 0, 0, 0, 0, 1, 0, 0, 0, 0, 1]\<rparr>
     = Inr \<lparr>ySize = 4, xSize = 4,
                 vals = [Finite False 1, Finite True 0, Finite False 0, Finite True 0,
                         Finite False 0, Finite True 1, Finite False 0, Finite True 0,
                         Finite False 0, Finite True 0, Finite False 1, Finite True 0,
                         Finite False 0, Finite True 0, Finite False 0, Finite True 1]\<rparr>"
  unfolding inverse_m_def adjugate_identity_4 determinant_identity_4
  by (simp add: map_m_def array_eval num_eval)

lemma multiply_identity_4:
  "multiply \<lparr>ySize = 4, xSize = 4,
                 vals = [Finite False 1, Finite True 0, Finite False 0, Finite True 0,
                         Finite False 0, Finite True 1, Finite False 0, Finite True 0,
                         Finite False 0, Finite True 0, Finite False 1, Finite True 0,
                         Finite False 0, Finite True 0, Finite False 0, Finite True 1]\<rparr>
      (Matrix \<lparr>ySize = 4, xSize = 4, vals = map js_int [1, 0, 0, 0, 0, 1, 0, 0, 0, 0, 1, 0, 0, 0, 0, 1]\<rparr>)
     = Inr \<lparr>ySize = 4, xSize = 4,
                 vals = [Finite False 1, Finite False 0, Finite False 0, Finite False 0,
                         Finite False 0, Finite True 1, Finite False 0, Finite False 0,
                         Finite False 0, Finite False 0, Finite False 1, Finite False 0,
                         Finite False 0, Finite False 0, Finite False 0, Finite True 1]\<rparr>"
  by (simp add: multiply_def array_eval num_eval)

lemma identity_4:
  "identity 4 = Inr \<lparr>ySize = 4, xSize = 4, vals = map js_int [1, 0, 0, 0, 0, 1, 0, 0, 0, 0, 1, 0, 0, 0, 0, 1]\<rparr>"
  by (simp add: identity_def array_eval num_eval)

lemma sum_less_4: "(\<Sum>z<(4::nat). f z) = f 0 + f 1 + f 2 + (f 3 :: rat)"
  by (simp add: eval_nat_numeral)

lemma determinant_exact_4:
  "determinant_exact 4 A = (\<Sum>x<4. A 0 x * determinant_exact 3 (minor_exact A 0 x) * (- 1) ^ x)"
proof -
  have "determinant_exact (Suc 3) A
      = (\<Sum>x<Suc 3. A 0 x * determinant_exact 3 (minor_exact A 0 x) * (- 1) ^ x)"
    by (subst determinant_exact.simps(2)) simp
  then show ?thesis by simp
qed

lemma inverse_exact_identity_4:
  "inverse_exact 4 (elements \<lparr>ySize = 4, xSize = 4, vals = [js_int 1, js_int 0, js_int 0, js_int 0, js_int 0, js_int 1, js_int 0, js_int 0, js_int 0, js_int 0, js_int 1, js_int 0, js_int 0, js_int 0, js_int 0, js_int 1]\<rparr>) 1 1 = - 1"
  by (simp add: inverse_exact_def adjugate_exact_def determinant_exact_4 sum_less_4
      determinant_exact_3 minor_exact_def elements_def)

lemma inverse_round_trip_identity_4:
  "identity 4 = Inr \<lparr>ySize = 4, xSize = 4, vals = map js_int [1, 0, 0, 0, 0, 1, 0, 0, 0, 0, 1, 0, 0, 0, 0, 1]\<rparr>
   \<and> determinant \<lparr>ySize = 4, xSize = 4, vals = map js_int [1, 0, 0, 0, 0, 1, 0, 0, 0, 0, 1, 0, 0, 0, 0, 1]\<rparr>
       = Inr (js_int 1)
   \<and> inverse_m \<lparr>ySize = 4, xSize = 4, vals = map js_int [1, 0, 0, 0, 0, 1, 0, 0, 0, 0, 1, 0, 0, 0, 0, 1]\<rparr>
       = Inr \<lparr>ySize = 4, xSize = 4,
                 vals = [Finite False 1, Finite True 0, Finite False 0, Finite True 0,
                         Finite False 0, Finite True 1, Finite False 0, Finite True 0,
                         Finite False 0, Finite True 0, Finite False 1, Finite True 0,
                         Finite False 0, Finite True 0, Finite False 0, Finite True 1]\<rparr>
   \<and> inverse_exact 4
         (elements \<lparr>ySize = 4, xSize = 4,
                      vals = map js_int [1, 0, 0, 0, 0, 1, 0, 0, 0, 0, 1, 0, 0, 0, 0, 1]\<rparr>) 1 1 = - 1
   \<and> multiply \<lparr>ySize = 4, xSize = 4,
                 vals = [Finite False 1, Finite True 0, Finite False 0, Finite True 0,
                         Finite False 0, Finite True 1, Finite False 0, Finite True 0,
                         Finite False 0, Finite True 0, Finite False 1, Finite True 0,
                         Finite False 0, Finite True 0, Finite False 0, Finite True 1]\<rparr>
        (Matrix \<lparr>ySize = 4, xSize = 4, vals = map js_int [1, 0, 0, 0, 0, 1, 0, 0, 0, 0, 1, 0, 0, 0, 0, 1]\<rparr>)
       = Inr \<lparr>ySize = 4, xSize = 4,
                 vals = [Finite False 1, Finite False 0, Finite False 0, Finite False 0,
                         Finite False 0, Finite True 1, Finite False 0, Finite False 0,
                         Finite False 0, Finite False 0, Finite False 1, Finite False 0,
                         Finite False 0, Finite False 0, Finite False 0, Finite True 1]\<rparr>
   \<and> \<not> eq \<lparr>ySize = 4, xSize = 4,
                 vals = [Finite False 1, Finite False 0, Finite False 0, Finite False 0,
                         Finite False 0, Finite True 1, Finite False 0, Finite False 0,
                         Finite False 0, Finite False 0, Finite False 1, Finite False 0,
                         Finite False 0, Finite False 0, Finite False 0, Finite True 1]\<rparr>
            \<lparr>ySize = 4, xSize = 4, vals = map js_int [1, 0, 0, 0, 0, 1, 0, 0, 0, 0, 1, 0, 0, 0, 0, 1]\<rparr>"
proof -
  have "\<not> eq \<lparr>ySize = 4, xSize = 4,
                 vals = [Finite False 1, Finite False 0, Finite False 0, Finite False 0,
                         Finite False 0, Finite True 1, Finite False 0, Finite False 0,
                         Finite False 0, Finite False 0, Finite False 1, Finite False 0,
                         Finite False 0, Finite False 0, Finite False 0, Finite True 1]\<rparr>
            \<lparr>ySize = 4, xSize = 4, vals = map js_int [1, 0, 0, 0, 0, 1, 0, 0, 0, 0, 1, 0, 0, 0, 0, 1]\<rparr>"
    by (simp add: eq_def typed_get_def js_int_def upto_rec1)
  moreover have "inverse_exact 4
         (elements \<lparr>ySize = 4, xSize = 4,
                      vals = map js_int [1, 0, 0, 0, 0, 1, 0, 0, 0, 0, 1, 0, 0, 0, 0, 1]\<rparr>) 1 1 = - 1"
    using inverse_exact_identity_4 by simp
  ultimately show ?thesis
    using identity_4 determinant_identity_4 inverse_identity_4 multiply_identity_4 by blast
qed

subsection \<open>The round trip without rounding error\<close>

lemma adjugate_shape:
  "adjugate m = Inr a \<Longrightarrow>
   ySize a = ySize m \<and> xSize a = xSize m \<and> int (length (vals a)) = ySize m * xSize m"
  by (auto simp: adjugate_def construct_def Let_def split: sum.splits if_splits)

lemma inverse_returns:
  assumes ok: "matrix_ok m" and sq: "xSize m = ySize m" and small: "xSize m * ySize m < 2 ^ 32"
    and det: "determinant m = Inr d" and nz: "\<not> js_strict_eq d js_zero"
  shows "\<exists>vs. inverse_m m = Inr \<lparr>ySize = ySize m, xSize = xSize m, vals = vs\<rparr>
              \<and> int (length vs) = ySize m * xSize m"
proof -
  have a: "adjugate m = Inr (adjugate_spec m)" using ok sq small by (rule adjugate_ok)
  note s = adjugate_shape [OF a]
  show ?thesis
    using s by (simp add: inverse_m_def det nz a map_m_def construct_def)
qed

lemma multiply_returns:
  assumes "0 \<le> ySize a" and "0 \<le> xSize b" and "ySize a * xSize b < 2 ^ 32"
  shows "\<exists>vs. multiply a (Matrix b) = Inr \<lparr>ySize = ySize a, xSize = xSize b, vals = vs\<rparr>
              \<and> int (length vs) = ySize a * xSize b \<and> list_all is_float32 vs"
proof -
  have len: "int (length (vals (multiply_spec a b))) = ySize a * xSize b"
    unfolding multiply_spec_def using assms(1,2)
    by (simp only: matrix.simps)
       (subst length_concat_uniform [where n = "nat (xSize b)"], simp_all add: nat_mult_distrib)
  have fl: "list_all is_float32 (vals (multiply_spec a b))"
    by (auto simp: multiply_spec_def list_all_iff)
  have "multiply_spec a b
      = \<lparr>ySize = ySize a, xSize = xSize b, vals = vals (multiply_spec a b)\<rparr>"
    by (simp add: multiply_spec_def)
  with multiply_matrix_ok [OF assms] len fl show ?thesis by metis
qed

lemma exactly_value: "exactly v q \<Longrightarrow> value_of v = q"
  by (simp add: exactly_def)

lemma exactly_zero: "exactly v 0 \<Longrightarrow> js_strict_eq v js_zero"
  by (cases v) (auto simp: exactly_def is_finite_def value_of_def signed_def js_zero_def
      split: if_splits)

lemma exactly_one: "is_float32 v \<Longrightarrow> exactly v 1 \<Longrightarrow> js_strict_eq v js_one"
proof (cases v)
  case (Finite s r)
  assume "is_float32 v" and e: "exactly v 1"
  then have "0 \<le> r" using float32_bound [of s r] by (simp add: Finite)
  with e show ?thesis
    by (auto simp: Finite exactly_def value_of_def signed_def js_one_def split: if_splits)
qed (simp_all add: exactly_def is_finite_def)

lemma exactly_nonzero:
  "exactly d q \<Longrightarrow> \<not> js_strict_eq d js_zero \<Longrightarrow> q \<noteq> 0"
  by (cases d) (auto simp: exactly_def is_finite_def value_of_def signed_def js_zero_def
      split: if_splits)

lemma eq_identity_specI:
  assumes dims: "ySize p = int n" "xSize p = int n" and len: "length (vals p) = n * n"
    and cell: "\<And>y x. y < n \<Longrightarrow> x < n \<Longrightarrow>
                 js_strict_eq (vals p ! (y * n + x)) (if x = y then js_one else js_zero)"
  shows "eq p (identity_spec (int n))"
proof -
  have il: "length (vals (identity_spec (int n))) = n * n"
    using length_identity_spec [of "int n"] by simp
  have "js_strict_eq (vals p ! k) (vals (identity_spec (int n)) ! k)" if "k < n * n" for k
  proof -
    have n0: "0 < n" using that by (cases n) simp_all
    define y where "y = k div n"
    define x where "x = k mod n"
    have k: "k = y * n + x" by (simp add: y_def x_def)
    have x: "x < n" using n0 by (simp add: x_def)
    have y: "y < n" using that n0 by (simp add: y_def less_mult_imp_div_less)
    have "vals (identity_spec (int n)) ! nat (int y * int n + int x)
            = (if int x = int y then js_one else js_zero)"
      using x y by (intro nth_identity_spec) simp_all
    moreover have "nat (int y * int n + int x) = k"
      by (simp add: k nat_add_distrib nat_mult_distrib)
    ultimately show ?thesis using cell [OF y x] by (simp add: k)
  qed
  then have "js_strict_eq (vals p ! nat i) (vals (identity_spec (int n)) ! nat i)"
    if "0 \<le> i" "i < int (n * n)" for i
    using that by (simp add: nat_less_iff)
  moreover have "xSize (identity_spec (int n)) = int n" "ySize (identity_spec (int n)) = int n"
    by (simp_all add: identity_spec_def)
  ultimately show ?thesis
    using dims len il
    by (auto simp: eq_def typed_get_def list_all_iff)
qed

lemma cell_less: "y < n \<Longrightarrow> x < n \<Longrightarrow> y * n + x < n * (n::nat)"
proof -
  assume y: "y < n" and x: "x < n"
  have "y * n + x < y * n + n" using x by simp
  also have "\<dots> = Suc y * n" by simp
  also have "\<dots> \<le> n * n" using y by (metis Suc_leI mult.commute mult_le_mono2)
  finally show ?thesis .
qed

lemma round_trip_returns:
  assumes ok: "matrix_ok m" and dims: "ySize m = int n" "xSize m = int n"
    and small: "int n * int n < 2 ^ 32"
    and det: "determinant m = Inr d" and nz: "\<not> js_strict_eq d js_zero"
  shows "\<exists>vs ws. inverse_m m = Inr \<lparr>ySize = int n, xSize = int n, vals = vs\<rparr>
           \<and> multiply \<lparr>ySize = int n, xSize = int n, vals = vs\<rparr> (Matrix m)
               = Inr \<lparr>ySize = int n, xSize = int n, vals = ws\<rparr>
           \<and> length ws = n * n \<and> list_all is_float32 ws"
proof -
  from inverse_returns [OF ok _ _ det nz] dims small
  obtain vs where inv: "inverse_m m = Inr \<lparr>ySize = int n, xSize = int n, vals = vs\<rparr>"
    by auto
  from multiply_returns [of "\<lparr>ySize = int n, xSize = int n, vals = vs\<rparr>" m] dims small
  obtain ws where mul: "multiply \<lparr>ySize = int n, xSize = int n, vals = vs\<rparr> (Matrix m)
                          = Inr \<lparr>ySize = int n, xSize = int n, vals = ws\<rparr>"
    and lws: "int (length ws) = int n * int n" and fws: "list_all is_float32 ws"
    by auto
  have "length ws = n * n"
    using lws by (metis of_nat_eq_iff of_nat_mult)
  with inv mul fws show ?thesis by blast
qed

lemma round_trip_identity:
  assumes ok: "matrix_ok m" and dims: "ySize m = int n" "xSize m = int n"
    and small: "int n * int n < 2 ^ 32"
    and det: "determinant m = Inr d" and nz: "\<not> js_strict_eq d js_zero"
    and cells: "\<And>inv p y x. inverse_m m = Inr inv \<Longrightarrow> multiply inv (Matrix m) = Inr p \<Longrightarrow>
                  y < n \<Longrightarrow> x < n \<Longrightarrow> exactly (vals p ! (y * n + x)) (if x = y then 1 else 0)"
  shows "\<exists>inv p. inverse_m m = Inr inv \<and> multiply inv (Matrix m) = Inr p
           \<and> identity (int n) = Inr (identity_spec (int n)) \<and> eq p (identity_spec (int n))"
proof -
  from round_trip_returns [OF ok dims small det nz]
  obtain vs ws where inv: "inverse_m m = Inr \<lparr>ySize = int n, xSize = int n, vals = vs\<rparr>"
    and mul: "multiply \<lparr>ySize = int n, xSize = int n, vals = vs\<rparr> (Matrix m)
                = Inr \<lparr>ySize = int n, xSize = int n, vals = ws\<rparr>"
    and len: "length ws = n * n" and fws: "list_all is_float32 ws"
    by blast
  have cell: "js_strict_eq (ws ! (y * n + x)) (if x = y then js_one else js_zero)"
    if y: "y < n" and x: "x < n" for y x
  proof -
    have e: "exactly (ws ! (y * n + x)) (if x = y then 1 else 0)"
      using cells [OF inv mul y x] by simp
    have "is_float32 (ws ! (y * n + x))"
      using fws cell_less [OF y x] by (simp add: list_all_length len)
    with e show ?thesis by (auto intro: exactly_one exactly_zero)
  qed
  have "eq \<lparr>ySize = int n, xSize = int n, vals = ws\<rparr> (identity_spec (int n))"
    by (rule eq_identity_specI) (simp_all add: len cell)
  moreover have "identity (int n) = Inr (identity_spec (int n))"
    using small by (intro identity_ok) simp_all
  ultimately show ?thesis
    using inv mul by blast
qed

lemma inverse_round_trip_stages:
  assumes ok: "matrix_ok m" and dims: "ySize m = int n" "xSize m = int n"
    and small: "int n * int n < 2 ^ 32" and odd: "odd n"
    and det: "determinant m = Inr d" and nz: "\<not> js_strict_eq d js_zero"
    and det_exact: "exactly d (determinant_exact n (elements m))"
    and inv_exact:
      "\<forall>inv. inverse_m m = Inr inv \<longrightarrow>
         (\<forall>y<n. \<forall>x<n. exactly (vals inv ! (y * n + x)) (inverse_exact n (elements m) y x))"
    and mul_exact:
      "\<forall>inv p. inverse_m m = Inr inv \<longrightarrow> multiply inv (Matrix m) = Inr p \<longrightarrow>
         (\<forall>y<n. \<forall>x<n. exactly (vals p ! (y * n + x))
                            (\<Sum>z<n. elements inv y z * elements m z x))"
  shows "\<exists>inv p. inverse_m m = Inr inv \<and> multiply inv (Matrix m) = Inr p
           \<and> identity (int n) = Inr (identity_spec (int n)) \<and> eq p (identity_spec (int n))"
  using ok dims small det nz
proof (rule round_trip_identity)
  fix inv p y x
  assume inv: "inverse_m m = Inr inv" and mul: "multiply inv (Matrix m) = Inr p"
    and y: "y < n" and x: "x < n"
  have D: "determinant_exact n (elements m) \<noteq> 0"
    using det_exact nz by (rule exactly_nonzero)
  from round_trip_returns [OF ok dims small det nz] inv have xs: "xSize inv = int n" by auto
  have ie: "elements inv y z = inverse_exact n (elements m) y z" if "z < n" for z
    using inv_exact [rule_format, OF inv y that] by (simp add: elements_def xs exactly_value)
  have "exactly (vals p ! (y * n + x)) (\<Sum>z<n. elements inv y z * elements m z x)"
    using mul_exact [rule_format, OF inv mul y x] .
  also have "(\<Sum>z<n. elements inv y z * elements m z x)
      = (\<Sum>z<n. inverse_exact n (elements m) y z * elements m z x)"
    by (intro sum.cong refl) (simp add: ie)
  also have "\<dots> = (if x = y then 1 else 0)"
    using odd D y x by (rule exact_round_trip)
  finally show "exactly (vals p ! (y * n + x)) (if x = y then 1 else 0)" .
qed

text \<open>
  When \<^verbatim>\<open>m.inverse().multiply(m)\<close> equals the identity, every element of the product
  is the value of the product of \<open>inverse_exact\<close> and the matrix: the condition of the
  round trip below is necessary.
\<close>

lemma strict_eq_one_exactly: "js_strict_eq v js_one \<Longrightarrow> exactly v 1"
  by (cases v) (auto simp: js_one_def exactly_def is_finite_def value_of_def signed_def)

lemma strict_eq_zero_exactly: "js_strict_eq v js_zero \<Longrightarrow> exactly v 0"
  by (cases v) (auto simp: js_zero_def exactly_def is_finite_def value_of_def signed_def)

lemma inverse_round_trip_exact_necessary:
  assumes ok: "matrix_ok m" and dims: "ySize m = int n" "xSize m = int n"
    and small: "int n * int n < 2 ^ 32" and odd: "odd n"
    and det: "determinant m = Inr d" and nz: "\<not> js_strict_eq d js_zero"
    and det_exact: "determinant_exact n (elements m) \<noteq> 0"
    and inv: "inverse_m m = Inr a" and mul: "multiply a (Matrix m) = Inr p"
    and e: "eq p (identity_spec (int n))"
    and y: "y < n" and x: "x < n"
  shows "exactly (vals p ! (y * n + x))
           (\<Sum>z<n. inverse_exact n (elements m) y z * elements m z x)"
proof -
  from round_trip_returns [OF ok dims small det nz] inv mul
  have len: "length (vals p) = n * n" by auto
  define i where "i = int (y * n + x)"
  have i: "0 \<le> i" "i < int (length (vals p))" "nat i = y * n + x"
    unfolding i_def len using cell_less [OF y x] by (simp_all only: of_nat_0_le_iff of_nat_less_iff nat_int)
  have il: "length (vals (identity_spec (int n))) = n * n"
    using length_identity_spec [of "int n"] by simp
  have "vals (identity_spec (int n)) ! nat (int y * int n + int x)
          = (if int x = int y then js_one else js_zero)"
    using x y by (intro nth_identity_spec) simp_all
  moreover have "nat (int y * int n + int x) = y * n + x"
    by (simp add: nat_add_distrib nat_mult_distrib)
  ultimately have id: "vals (identity_spec (int n)) ! (y * n + x)
                        = (if x = y then js_one else js_zero)"
    by simp
  have "i \<in> set [0..int (length (vals p)) - 1]" using i by simp
  with e have "case typed_get (vals (identity_spec (int n))) i of
                 None \<Rightarrow> False | Some w \<Rightarrow> js_strict_eq (vals p ! nat i) w"
    by (auto simp: eq_def list_all_iff split: if_splits)
  then have "js_strict_eq (vals p ! (y * n + x)) (if x = y then js_one else js_zero)"
    using i by (simp add: typed_get_def il len id)
  then have "exactly (vals p ! (y * n + x)) (if x = y then 1 else 0)"
    by (auto intro: strict_eq_one_exactly strict_eq_zero_exactly split: if_splits)
  also have "(if x = y then 1 else 0)
      = (\<Sum>z<n. inverse_exact n (elements m) y z * elements m z x)"
    using exact_round_trip [OF odd det_exact y x] by simp
  finally show ?thesis .
qed

text \<open>
  Two matrices of the size three. The inverse of \<^verbatim>\<open>matrix(3,3)(2,0,0,0,1,0,0,0,1)\<close> has
  the element 1/2 and nothing is rounded. The inverse of
  \<^verbatim>\<open>matrix(3,3)(3,0,0,0,1,0,0,0,1)\<close> has the element 1/3 rounded to single precision,
  \<open>11184811 / 2 ^ 25\<close>; its product with 3 is \<open>1 + 1 / 2 ^ 25\<close>, which is stored as 1, and
  the product of the inverse and the matrix is the identity, free of rounding error.
\<close>

lemma round_double_half: "round_mag 53 (- 1022) 1023 (1 / 2) = Some (1 / 2)"
  using round_mag_exact [of 1 53 "- 1022" "- 1" 1023] by (simp add: power_int_minus)

lemma round_single_half: "round_mag 24 (- 126) 127 (1 / 2) = Some (1 / 2)"
  using round_mag_exact [of 1 24 "- 126" "- 1" 127] by (simp add: power_int_minus)

lemma round_double_third:
  "round_mag 53 (- 1022) 1023 (1 / 3) = Some (6004799503160661 / 18014398509481984)"
  using round_mag_eval [of "1 / 3" "- 2" "- 1022" 6004799503160661 53 1023]
  by (simp add: power_int_minus)

lemma round_single_third:
  "round_mag 24 (- 126) 127 (6004799503160661 / 18014398509481984) = Some (11184811 / 33554432)"
  using round_mag_eval [of "6004799503160661 / 18014398509481984" "- 2" "- 126" 11184811 24 127]
  by (simp add: power_int_minus)

lemma round_single_third_exact:
  "round_mag 24 (- 126) 127 (11184811 / 33554432) = Some (11184811 / 33554432)"
  using round_mag_exact [of 11184811 24 "- 126" "- 25" 127]
  by (simp add: power_int_minus)

lemma round_double_third_product:
  "round_mag 53 (- 1022) 1023 (33554433 / 33554432) = Some (33554433 / 33554432)"
  using round_mag_exact [of 33554433 53 "- 1022" "- 25" 1023]
  by (simp add: power_int_minus)

lemma round_single_third_product:
  "round_mag 24 (- 126) 127 (33554433 / 33554432) = Some 1"
  using round_mag_eval [of "33554433 / 33554432" 0 "- 126" 8388608 24 127]
  by (simp add: power_int_minus)

lemmas fraction_eval = round_double_half round_single_half round_double_third round_single_third
  round_single_third_exact round_double_third_product round_single_third_product

lemma determinant_diagonal_2:
  "determinant \<lparr>ySize = 3, xSize = 3, vals = map js_int [2, 0, 0, 0, 1, 0, 0, 0, 1]\<rparr> = Inr (js_int 2)"
  by (simp add: matrix_eval array_eval num_eval)

lemma inverse_diagonal_2:
  "inverse_m \<lparr>ySize = 3, xSize = 3, vals = map js_int [2, 0, 0, 0, 1, 0, 0, 0, 1]\<rparr>
     = Inr \<lparr>ySize = 3, xSize = 3,
               vals = [Finite False (1 / 2), Finite True 0, Finite False 0,
                       Finite True 0, Finite False 1, Finite True 0,
                       Finite False 0, Finite True 0, Finite False 1]\<rparr>"
  by (simp add: matrix_eval array_eval num_eval fraction_eval)

lemma multiply_diagonal_2:
  "multiply \<lparr>ySize = 3, xSize = 3,
               vals = [Finite False (1 / 2), Finite True 0, Finite False 0,
                       Finite True 0, Finite False 1, Finite True 0,
                       Finite False 0, Finite True 0, Finite False 1]\<rparr>
     (Matrix \<lparr>ySize = 3, xSize = 3, vals = map js_int [2, 0, 0, 0, 1, 0, 0, 0, 1]\<rparr>)
     = Inr \<lparr>ySize = 3, xSize = 3, vals = map js_int [1, 0, 0, 0, 1, 0, 0, 0, 1]\<rparr>"
  by (simp add: multiply_def array_eval num_eval fraction_eval)

lemma inverse_exact_diagonal_2:
  "inverse_exact 3 (elements \<lparr>ySize = 3, xSize = 3, vals = map js_int [2, 0, 0, 0, 1, 0, 0, 0, 1]\<rparr>) 0 0 = 1 / 2"
  by (simp add: inverse_exact_def adjugate_exact_def determinant_exact_3 determinant_exact_2
      minor_exact_def elements_def)

lemma inverse_round_trip_diagonal_2:
  "determinant \<lparr>ySize = 3, xSize = 3, vals = map js_int [2, 0, 0, 0, 1, 0, 0, 0, 1]\<rparr> = Inr (js_int 2)
   \<and> inverse_m \<lparr>ySize = 3, xSize = 3, vals = map js_int [2, 0, 0, 0, 1, 0, 0, 0, 1]\<rparr>
       = Inr \<lparr>ySize = 3, xSize = 3,
               vals = [Finite False (1 / 2), Finite True 0, Finite False 0,
                       Finite True 0, Finite False 1, Finite True 0,
                       Finite False 0, Finite True 0, Finite False 1]\<rparr>
   \<and> inverse_exact 3 (elements \<lparr>ySize = 3, xSize = 3, vals = map js_int [2, 0, 0, 0, 1, 0, 0, 0, 1]\<rparr>) 0 0 = 1 / 2
   \<and> multiply \<lparr>ySize = 3, xSize = 3,
               vals = [Finite False (1 / 2), Finite True 0, Finite False 0,
                       Finite True 0, Finite False 1, Finite True 0,
                       Finite False 0, Finite True 0, Finite False 1]\<rparr>
        (Matrix \<lparr>ySize = 3, xSize = 3, vals = map js_int [2, 0, 0, 0, 1, 0, 0, 0, 1]\<rparr>)
       = Inr \<lparr>ySize = 3, xSize = 3, vals = map js_int [1, 0, 0, 0, 1, 0, 0, 0, 1]\<rparr>
   \<and> eq \<lparr>ySize = 3, xSize = 3, vals = map js_int [1, 0, 0, 0, 1, 0, 0, 0, 1]\<rparr>
        \<lparr>ySize = 3, xSize = 3, vals = map js_int [1, 0, 0, 0, 1, 0, 0, 0, 1]\<rparr>"
proof -
  have "eq \<lparr>ySize = 3, xSize = 3, vals = map js_int [1, 0, 0, 0, 1, 0, 0, 0, 1]\<rparr>
          \<lparr>ySize = 3, xSize = 3, vals = map js_int [1, 0, 0, 0, 1, 0, 0, 0, 1]\<rparr>"
    by (simp add: eq_def typed_get_def js_int_def upto_rec1)
  with determinant_diagonal_2 inverse_diagonal_2 multiply_diagonal_2 inverse_exact_diagonal_2 show ?thesis by blast
qed

lemma determinant_diagonal_3:
  "determinant \<lparr>ySize = 3, xSize = 3, vals = map js_int [3, 0, 0, 0, 1, 0, 0, 0, 1]\<rparr> = Inr (js_int 3)"
  by (simp add: matrix_eval array_eval num_eval)

lemma inverse_diagonal_3:
  "inverse_m \<lparr>ySize = 3, xSize = 3, vals = map js_int [3, 0, 0, 0, 1, 0, 0, 0, 1]\<rparr>
     = Inr \<lparr>ySize = 3, xSize = 3,
               vals = [Finite False (11184811 / 33554432), Finite True 0, Finite False 0,
                       Finite True 0, Finite False 1, Finite True 0,
                       Finite False 0, Finite True 0, Finite False 1]\<rparr>"
  by (simp add: matrix_eval array_eval num_eval fraction_eval)

lemma multiply_diagonal_3:
  "multiply \<lparr>ySize = 3, xSize = 3,
               vals = [Finite False (11184811 / 33554432), Finite True 0, Finite False 0,
                       Finite True 0, Finite False 1, Finite True 0,
                       Finite False 0, Finite True 0, Finite False 1]\<rparr>
     (Matrix \<lparr>ySize = 3, xSize = 3, vals = map js_int [3, 0, 0, 0, 1, 0, 0, 0, 1]\<rparr>)
     = Inr \<lparr>ySize = 3, xSize = 3, vals = map js_int [1, 0, 0, 0, 1, 0, 0, 0, 1]\<rparr>"
  by (simp add: multiply_def array_eval num_eval fraction_eval)

lemma inverse_exact_diagonal_3:
  "inverse_exact 3 (elements \<lparr>ySize = 3, xSize = 3, vals = map js_int [3, 0, 0, 0, 1, 0, 0, 0, 1]\<rparr>) 0 0 = 1 / 3"
  by (simp add: inverse_exact_def adjugate_exact_def determinant_exact_3 determinant_exact_2
      minor_exact_def elements_def)

lemma inverse_round_trip_diagonal_3:
  "determinant \<lparr>ySize = 3, xSize = 3, vals = map js_int [3, 0, 0, 0, 1, 0, 0, 0, 1]\<rparr> = Inr (js_int 3)
   \<and> inverse_m \<lparr>ySize = 3, xSize = 3, vals = map js_int [3, 0, 0, 0, 1, 0, 0, 0, 1]\<rparr>
       = Inr \<lparr>ySize = 3, xSize = 3,
               vals = [Finite False (11184811 / 33554432), Finite True 0, Finite False 0,
                       Finite True 0, Finite False 1, Finite True 0,
                       Finite False 0, Finite True 0, Finite False 1]\<rparr>
   \<and> inverse_exact 3 (elements \<lparr>ySize = 3, xSize = 3, vals = map js_int [3, 0, 0, 0, 1, 0, 0, 0, 1]\<rparr>) 0 0 = 1 / 3
   \<and> multiply \<lparr>ySize = 3, xSize = 3,
               vals = [Finite False (11184811 / 33554432), Finite True 0, Finite False 0,
                       Finite True 0, Finite False 1, Finite True 0,
                       Finite False 0, Finite True 0, Finite False 1]\<rparr>
        (Matrix \<lparr>ySize = 3, xSize = 3, vals = map js_int [3, 0, 0, 0, 1, 0, 0, 0, 1]\<rparr>)
       = Inr \<lparr>ySize = 3, xSize = 3, vals = map js_int [1, 0, 0, 0, 1, 0, 0, 0, 1]\<rparr>
   \<and> eq \<lparr>ySize = 3, xSize = 3, vals = map js_int [1, 0, 0, 0, 1, 0, 0, 0, 1]\<rparr>
        \<lparr>ySize = 3, xSize = 3, vals = map js_int [1, 0, 0, 0, 1, 0, 0, 0, 1]\<rparr>"
proof -
  have "eq \<lparr>ySize = 3, xSize = 3, vals = map js_int [1, 0, 0, 0, 1, 0, 0, 0, 1]\<rparr>
          \<lparr>ySize = 3, xSize = 3, vals = map js_int [1, 0, 0, 0, 1, 0, 0, 0, 1]\<rparr>"
    by (simp add: eq_def typed_get_def js_int_def upto_rec1)
  with determinant_diagonal_3 inverse_diagonal_3 multiply_diagonal_3 inverse_exact_diagonal_3 show ?thesis by blast
qed





end
